theory Spec2Isabelle
  imports Complex_Main "HOL-Library.Log_Nat"
begin

section \<open>The forward pass of the mixture-of-experts layer\<close>

text \<open>
  The development embeds \<^verbatim>\<open>MoE.forward\<close> of \<^verbatim>\<open>moe_torch.py\<close>. One process runs per
  expert, so the state of a pass is the list of the workers' inputs, indexed by rank;
  \<^verbatim>\<open>num_experts\<close> is the length of that list. A collective is the function from all
  the ranks' send buffers to one rank's receive buffer. Tensors of shape \<open>(n, C)\<close> are
  lists of rows; \<^verbatim>\<open>flatten\<close> followed by \<^verbatim>\<open>view(-1, C)\<close> is the identity on them, so
  buffers are exchanged row by row and the split sizes count rows. The entries of the
  tensors are exact reals: the rounding of the tensor arithmetic is outside the model. The
  capacity of line 94 is computed on Python floats and decides which elements are
  truncated, so it is modelled with the rounding of float64.

  The router (a network ending in a softmax) and \<^verbatim>\<open>torch.topk\<close> are external: their
  results \<^verbatim>\<open>topk_probs\<close> and \<^verbatim>\<open>topk_experts\<close> are inputs of the model. The local expert
  \<^verbatim>\<open>FeedForward\<close> acts on the last dimension only, so it is a parameter that maps a
  rank and a feature vector to a feature vector; the randomness of a dropout layer is
  outside the model.
\<close>

subsection \<open>Data\<close>

datatype error =
    TopkOutOfRange  \<comment> \<open>line 62: \<^verbatim>\<open>torch.topk\<close> with \<open>k\<close> above the size of the last dimension\<close>
  | StackEmpty      \<comment> \<open>line 96: \<^verbatim>\<open>torch.stack\<close> of an empty list\<close>
  | PadNegative     \<comment> \<open>line 95: \<^verbatim>\<open>F.pad\<close> to a negative size\<close>
  | PeerFailed      \<comment> \<open>line 108: a peer raised, the collective never completes\<close>
  | StackShape      \<comment> \<open>line 114: \<^verbatim>\<open>torch.stack\<close> of tensors of different sizes\<close>
  | ViewShape       \<comment> \<open>line 115: \<^verbatim>\<open>view\<close> to a shape of another size\<close>

record config =
  moe_k :: nat
  capacity_factor :: real
  padding_val :: real
  drop_last :: bool

record worker =
  x_in :: "real list list list"          \<comment> \<open>the batch \<open>x\<close>, of shape \<open>(B, T, C)\<close>\<close>
  dim_T :: nat
  dim_C :: nat
  topk_probs :: "real list list list"    \<comment> \<open>shape \<open>(B, T, k)\<close>\<close>
  topk_experts :: "nat list list list"   \<comment> \<open>shape \<open>(B, T, k)\<close>\<close>

type_synonym coord = "nat \<times> nat \<times> nat"

definition dim_B :: "worker \<Rightarrow> nat" where
  "dim_B w = length (x_in w)"

subsection \<open>Library operations\<close>

fun cumsum_from :: "nat \<Rightarrow> nat list \<Rightarrow> nat list" where
  "cumsum_from acc [] = []"
| "cumsum_from acc (y # ys) = (acc + y) # cumsum_from (acc + y) ys"

definition cumsum :: "nat list \<Rightarrow> nat list" where
  "cumsum ys = cumsum_from 0 ys"

text \<open>\<^verbatim>\<open>nonzero\<close> lists the coordinates of a mask in row-major order.\<close>

definition coords :: "nat \<Rightarrow> nat \<Rightarrow> nat \<Rightarrow> coord list" where
  "coords B T K =
     concat (map (\<lambda>b. concat (map (\<lambda>t. map (\<lambda>s. (b, t, s)) [0..<K]) [0..<T])) [0..<B])"

text \<open>\<^verbatim>\<open>dist.all_to_all\<close>: rank \<open>r\<close> receives, as its \<open>j\<close>-th output, the \<open>r\<close>-th input of rank \<open>j\<close>.\<close>

definition all_to_all :: "'a list list \<Rightarrow> nat \<Rightarrow> 'a list" where
  "all_to_all inputs r = map (\<lambda>j. inputs ! j ! r) [0..<length inputs]"

fun split_by :: "nat list \<Rightarrow> 'a list \<Rightarrow> 'a list list" where
  "split_by [] buf = []"
| "split_by (n # ns) buf = take n buf # split_by ns (drop n buf)"

text \<open>
  \<^verbatim>\<open>dist.all_to_all_single\<close>: every rank \<open>j\<close> splits its input by its input split sizes
  and sends the \<open>r\<close>-th piece to rank \<open>r\<close>, which concatenates the pieces by sender rank.
  The output split sizes are the sizes of these pieces (they come from the exchange of
  the counts), so they are not an argument.
\<close>

definition all_to_all_single :: "'a list list \<Rightarrow> nat list list \<Rightarrow> nat \<Rightarrow> 'a list" where
  "all_to_all_single inputs input_splits r =
     concat (map (\<lambda>j. split_by (input_splits ! j) (inputs ! j) ! r) [0..<length inputs])"

text \<open>\<^verbatim>\<open>unique(sorted=True, return_counts=True)\<close>.\<close>

definition unique_counts :: "nat list \<Rightarrow> nat list \<times> nat list" where
  "unique_counts ys = (let u = remdups (sort ys) in (u, map (count_list ys) u))"

text \<open>\<^verbatim>\<open>int(v)\<close> of a float truncates towards zero.\<close>

definition py_int :: "real \<Rightarrow> int" where
  "py_int v = (if 0 \<le> v then \<lfloor>v\<rfloor> else \<lceil>v\<rceil>)"

text \<open>
  A Python float is an IEEE 754 binary64 number, and every operation on floats returns the
  exact result rounded to 53 significant bits, ties to the even significand. For \<open>a > 0\<close>,
  \<open>exponent_of a\<close> is the integer \<open>e\<close> with \<open>2 ^ e \<le> a < 2 ^ (e + 1)\<close>, read from the number of bits
  of \<open>\<lfloor>a\<rfloor>\<close> when \<open>a \<ge> 1\<close> and of \<open>\<lceil>1 / a\<rceil> - 1\<close> otherwise; \<open>round_double\<close> scales the
  magnitude into \<open>[2 ^ 52, 2 ^ 53)\<close>, rounds it to an integer and scales back. The range of the
  exponent is not modelled (no overflow to infinity, no subnormal numbers): \<open>round_double\<close>
  is the rounding of float64 on magnitudes from \<open>2 ^ (- 1022)\<close> up to the largest float.
\<close>

definition pow2 :: "int \<Rightarrow> real" where
  "pow2 k = (if 0 \<le> k then 2 ^ nat k else 1 / 2 ^ nat (- k))"

definition exponent_of :: "real \<Rightarrow> int" where
  "exponent_of a = (if 1 \<le> a then bitlen \<lfloor>a\<rfloor> - 1 else - bitlen (\<lceil>1 / a\<rceil> - 1))"

definition round_half_even :: "real \<Rightarrow> int" where
  "round_half_even y =
     (let f = \<lfloor>y\<rfloor>; d = y - of_int f in
      if d < 1 / 2 then f else if 1 / 2 < d then f + 1 else if even f then f else f + 1)"

definition round_double :: "real \<Rightarrow> real" where
  "round_double x =
     (if x = 0 then 0
      else let a = \<bar>x\<bar>; k = 52 - exponent_of a in
           sgn x * of_int (round_half_even (a * pow2 k)) * pow2 (- k))"

text \<open>
  \<^verbatim>\<open>F.pad(toks, (0, 0, 0, d), value=v)\<close> on a tensor of shape \<open>(n, C)\<close>: \<open>d\<close> rows of \<open>v\<close>
  are appended when \<open>d\<close> is not negative, and the last \<open>-d\<close> rows are cut otherwise.
\<close>

definition pad_rows :: "nat \<Rightarrow> real list list \<Rightarrow> int \<Rightarrow> real \<Rightarrow> real list list" where
  "pad_rows C toks d v =
     (if 0 \<le> d then toks @ replicate (nat d) (replicate C v)
      else take (length toks - nat (- d)) toks)"

text \<open>Assignment through an index array: \<^verbatim>\<open>buf[idxs] = vals\<close>.\<close>

definition index_put :: "'a list \<Rightarrow> nat list \<Rightarrow> 'a list \<Rightarrow> 'a list" where
  "index_put buf idxs vals = fold (\<lambda>(i, v) b. b[i := v]) (zip idxs vals) buf"

subsection \<open>Steps 0 to 2: set-up, routing and permutation\<close>

definition batch_inits :: "config \<Rightarrow> worker list \<Rightarrow> nat \<Rightarrow> nat list" where
  "batch_inits cfg ws r =
     (if drop_last cfg then map (\<lambda>i. i * dim_B (ws ! r)) [0..<length ws + 1]
      else cumsum (0 # map dim_B ws))"

definition ids_per_expert :: "config \<Rightarrow> worker \<Rightarrow> nat \<Rightarrow> coord list" where
  "ids_per_expert cfg w e =
     filter (\<lambda>(b, t, s). topk_experts w ! b ! t ! s = e) (coords (dim_B w) (dim_T w) (moe_k cfg))"

text \<open>
  \<^verbatim>\<open>x[ids[:,:2].T.tolist()]\<close> and \<^verbatim>\<open>topk_probs[topk_experts==expert]\<close>: the feature vector and
  the router weight at a coordinate.
\<close>

definition tok_at :: "worker \<Rightarrow> coord \<Rightarrow> real list" where
  "tok_at w = (\<lambda>(b, t, s). x_in w ! b ! t)"

definition prob_at :: "worker \<Rightarrow> coord \<Rightarrow> real" where
  "prob_at w = (\<lambda>(b, t, s). topk_probs w ! b ! t ! s)"

definition probs_per_expert :: "config \<Rightarrow> worker \<Rightarrow> nat \<Rightarrow> real list" where
  "probs_per_expert cfg w e = map (prob_at w) (ids_per_expert cfg w e)"

definition send_count :: "config \<Rightarrow> worker list \<Rightarrow> nat \<Rightarrow> nat list" where
  "send_count cfg ws r = map (\<lambda>e. length (ids_per_expert cfg (ws ! r) e)) [0..<length ws]"

definition recv_count :: "config \<Rightarrow> worker list \<Rightarrow> nat \<Rightarrow> nat list" where
  "recv_count cfg ws r = all_to_all (map (send_count cfg ws) [0..<length ws]) r"

text \<open>Line 77 adds the offset of the rank's batch to the row index of a coordinate.\<close>

definition global_id :: "config \<Rightarrow> worker list \<Rightarrow> nat \<Rightarrow> coord \<Rightarrow> coord" where
  "global_id cfg ws r = (\<lambda>(b, t, s). (b + batch_inits cfg ws r ! r, t, s))"

definition send_ids :: "config \<Rightarrow> worker list \<Rightarrow> nat \<Rightarrow> coord list" where
  "send_ids cfg ws r =
     map (global_id cfg ws r) (concat (map (ids_per_expert cfg (ws ! r)) [0..<length ws]))"

definition recv_ids :: "config \<Rightarrow> worker list \<Rightarrow> nat \<Rightarrow> coord list" where
  "recv_ids cfg ws r =
     all_to_all_single (map (send_ids cfg ws) [0..<length ws])
       (map (send_count cfg ws) [0..<length ws]) r"

definition send_toks :: "config \<Rightarrow> worker list \<Rightarrow> nat \<Rightarrow> real list list" where
  "send_toks cfg ws r =
     concat (map (\<lambda>e. map (tok_at (ws ! r)) (ids_per_expert cfg (ws ! r) e)) [0..<length ws])"

definition recv_toks :: "config \<Rightarrow> worker list \<Rightarrow> nat \<Rightarrow> real list list" where
  "recv_toks cfg ws r =
     all_to_all_single (map (send_toks cfg ws) [0..<length ws])
       (map (send_count cfg ws) [0..<length ws]) r"

text \<open>The grouping of the received metadata by row id.\<close>

definition uniq_rows :: "config \<Rightarrow> worker list \<Rightarrow> nat \<Rightarrow> nat list" where
  "uniq_rows cfg ws r = fst (unique_counts (map fst (recv_ids cfg ws r)))"

definition recv_row_lens :: "config \<Rightarrow> worker list \<Rightarrow> nat \<Rightarrow> nat list" where
  "recv_row_lens cfg ws r = snd (unique_counts (map fst (recv_ids cfg ws r)))"

definition recv_row_offsets :: "config \<Rightarrow> worker list \<Rightarrow> nat \<Rightarrow> nat list" where
  "recv_row_offsets cfg ws r = 0 # cumsum (recv_row_lens cfg ws r)"

definition recv_row_slice :: "config \<Rightarrow> worker list \<Rightarrow> nat \<Rightarrow> nat \<Rightarrow> 'a list \<Rightarrow> 'a list" where
  "recv_row_slice cfg ws r row buf =
     drop (recv_row_offsets cfg ws r ! row) (take (recv_row_offsets cfg ws r ! (row + 1)) buf)"

text \<open>
  Line 94, as a function of the three numbers it reads. \<^verbatim>\<open>T\<close> and \<^verbatim>\<open>self.num_experts\<close> are
  Python ints, and \<^verbatim>\<open>/\<close> on ints returns the correctly rounded float of their quotient;
  \<^verbatim>\<open>self.capacity_factor\<close> is a float (an int is converted first), and the product of two
  floats is rounded again. The argument \<open>cf\<close> is the value of that float.
\<close>

definition capacity_of :: "nat \<Rightarrow> nat \<Rightarrow> real \<Rightarrow> int" where
  "capacity_of T E cf = py_int (round_double (round_double (real T / real E) * cf))"

definition capacity :: "config \<Rightarrow> worker list \<Rightarrow> nat \<Rightarrow> int" where
  "capacity cfg ws r = capacity_of (dim_T (ws ! r)) (length ws) (capacity_factor cfg)"

definition pad_fn :: "config \<Rightarrow> worker list \<Rightarrow> nat \<Rightarrow> real list list \<Rightarrow> real list list" where
  "pad_fn cfg ws r toks =
     pad_rows (dim_C (ws ! r)) toks (capacity cfg ws r - int (length toks)) (padding_val cfg)"

definition batch_toks :: "config \<Rightarrow> worker list \<Rightarrow> nat \<Rightarrow> error + real list list list" where
  "batch_toks cfg ws r =
     (if uniq_rows cfg ws r = [] then Inl StackEmpty
      else if capacity cfg ws r < 0 then Inl PadNegative
      else Inr (map (\<lambda>i. pad_fn cfg ws r (recv_row_slice cfg ws r i (recv_toks cfg ws r)))
                 [0..<length (uniq_rows cfg ws r)]))"

subsection \<open>Steps 3 and 4: computation and un-permutation\<close>

definition expert_out ::
  "config \<Rightarrow> (nat \<Rightarrow> real list \<Rightarrow> real list) \<Rightarrow> worker list \<Rightarrow> nat \<Rightarrow> error + real list list list" where
  "expert_out cfg expert ws r =
     (case batch_toks cfg ws r of Inl err \<Rightarrow> Inl err | Inr bt \<Rightarrow> Inr (map (map (expert r)) bt))"

definition batch_row_len :: "config \<Rightarrow> worker list \<Rightarrow> nat \<Rightarrow> nat list" where
  "batch_row_len cfg ws r =
     map (\<lambda>i. nat (min (int (recv_row_lens cfg ws r ! i)) (capacity cfg ws r)))
       [0..<length (uniq_rows cfg ws r)]"

definition recv_tok_offsets :: "config \<Rightarrow> worker list \<Rightarrow> nat \<Rightarrow> nat list" where
  "recv_tok_offsets cfg ws r =
     concat (map (\<lambda>i. [recv_row_offsets cfg ws r ! i ..<
                         recv_row_offsets cfg ws r ! i + batch_row_len cfg ws r ! i])
       [0..<length (uniq_rows cfg ws r)])"

definition batch_tok_offsets :: "config \<Rightarrow> worker list \<Rightarrow> nat \<Rightarrow> (nat \<times> nat) list" where
  "batch_tok_offsets cfg ws r =
     concat (map (\<lambda>i. map (\<lambda>j. (i, j)) [0..<batch_row_len cfg ws r ! i])
       [0..<length (uniq_rows cfg ws r)])"

text \<open>
  The buffer of results a rank sends back: \<^verbatim>\<open>recv_toks\<close> filled with the padding value,
  then overwritten at the offsets of the rows that were kept.
\<close>

definition result_toks ::
  "config \<Rightarrow> (nat \<Rightarrow> real list \<Rightarrow> real list) \<Rightarrow> worker list \<Rightarrow> nat \<Rightarrow> error + real list list" where
  "result_toks cfg expert ws r =
     (case expert_out cfg expert ws r of
        Inl err \<Rightarrow> Inl err
      | Inr bt \<Rightarrow>
          Inr (index_put
                 (map (\<lambda>tok. replicate (length tok) (padding_val cfg)) (recv_toks cfg ws r))
                 (recv_tok_offsets cfg ws r)
                 (map (\<lambda>(i, j). bt ! i ! j) (batch_tok_offsets cfg ws r))))"

text \<open>
  The exchange of line 108. A rank that raised before it never posts the collective, and
  its peers wait for it: the pass completes on no rank. The buffers are read with
  \<open>the_result\<close> only when every rank has one.
\<close>

fun the_result :: "error + 'a list \<Rightarrow> 'a list" where
  "the_result (Inr buf) = buf"
| "the_result (Inl err) = []"

definition returned_toks ::
  "config \<Rightarrow> (nat \<Rightarrow> real list \<Rightarrow> real list) \<Rightarrow> worker list \<Rightarrow> nat \<Rightarrow> error + real list list" where
  "returned_toks cfg expert ws r =
     (case result_toks cfg expert ws r of
        Inl err \<Rightarrow> Inl err
      | Inr own \<Rightarrow>
          if list_ex (\<lambda>j. isl (result_toks cfg expert ws j)) [0..<length ws] then Inl PeerFailed
          else Inr (all_to_all_single
                      (map (\<lambda>j. the_result (result_toks cfg expert ws j)) [0..<length ws])
                      (map (recv_count cfg ws) [0..<length ws]) r))"

subsection \<open>Step 5: scaling and combination\<close>

text \<open>
  Line 112 multiplies the \<open>n\<close>-th returned row by the \<open>n\<close>-th router weight of the send order;
  both buffers have one entry for every selected slot.
\<close>

definition scaled ::
  "config \<Rightarrow> (nat \<Rightarrow> real list \<Rightarrow> real list) \<Rightarrow> worker list \<Rightarrow> nat \<Rightarrow> error + real list list" where
  "scaled cfg expert ws r =
     (case returned_toks cfg expert ws r of
        Inl err \<Rightarrow> Inl err
      | Inr toks \<Rightarrow>
          Inr (map (\<lambda>(tok, p). map (\<lambda>v. v * p) tok)
                 (zip toks (concat (map (probs_per_expert cfg (ws ! r)) [0..<length ws])))))"

text \<open>\<^verbatim>\<open>x[send_ids[:,-1]==s]\<close>: the rows of the slot \<open>s\<close>, in the order of the send buffer.\<close>

definition slot_rows :: "coord list \<Rightarrow> 'a list \<Rightarrow> nat \<Rightarrow> 'a list" where
  "slot_rows ids rows s = map snd (filter (\<lambda>(c, row). snd (snd c) = s) (zip ids rows))"

definition stack :: "'a list list \<Rightarrow> error + 'a list list" where
  "stack ts =
     (case ts of
        [] \<Rightarrow> Inl StackEmpty
      | t # rest \<Rightarrow> if list_all (\<lambda>u. length u = length t) rest then Inr ts else Inl StackShape)"

text \<open>\<^verbatim>\<open>sum(dim=0)\<close> of a stack of tensors of one shape adds them entry by entry.\<close>

definition add_rows :: "real list \<Rightarrow> real list \<Rightarrow> real list" where
  "add_rows a b = map (\<lambda>(u, v). u + v) (zip a b)"

definition add_tensors :: "real list list \<Rightarrow> real list list \<Rightarrow> real list list" where
  "add_tensors acc t = map (\<lambda>(a, b). add_rows a b) (zip acc t)"

definition sum_dim0 :: "real list list list \<Rightarrow> real list list" where
  "sum_dim0 ts = fold (\<lambda>t acc. add_tensors acc t) (tl ts) (hd ts)"

definition view3 :: "nat \<Rightarrow> nat \<Rightarrow> 'a list \<Rightarrow> error + 'a list list" where
  "view3 B T rows =
     (if length rows = B * T then Inr (map (\<lambda>b. take T (drop (b * T) rows)) [0..<B])
      else Inl ViewShape)"

definition combine :: "config \<Rightarrow> worker list \<Rightarrow> nat \<Rightarrow> real list list \<Rightarrow> error + real list list list" where
  "combine cfg ws r rows =
     (if 1 < moe_k cfg then
        (case stack (map (slot_rows (send_ids cfg ws r) rows) [0..<moe_k cfg]) of
           Inl err \<Rightarrow> Inl err
         | Inr ts \<Rightarrow> view3 (dim_B (ws ! r)) (dim_T (ws ! r)) (sum_dim0 ts))
      else view3 (dim_B (ws ! r)) (dim_T (ws ! r)) rows)"

definition forward ::
  "config \<Rightarrow> (nat \<Rightarrow> real list \<Rightarrow> real list) \<Rightarrow> worker list \<Rightarrow> nat \<Rightarrow> error + real list list list" where
  "forward cfg expert ws r =
     (if length ws < moe_k cfg then Inl TopkOutOfRange
      else case scaled cfg expert ws r of
             Inl err \<Rightarrow> Inl err
           | Inr rows \<Rightarrow> combine cfg ws r rows)"

subsection \<open>Positions of an element in the buffers\<close>

text \<open>
  The \<open>i\<close>-th coordinate that rank \<open>r\<close> selects for expert \<open>e\<close> stands at \<open>send_pos\<close> in the
  send buffers of rank \<open>r\<close> and at \<open>recv_pos\<close> in the receive buffers of rank \<open>e\<close>. The slot
  is kept when its receive position is one of the offsets line 105 copies results to, and
  truncated otherwise.
\<close>

definition send_pos :: "config \<Rightarrow> worker list \<Rightarrow> nat \<Rightarrow> nat \<Rightarrow> nat \<Rightarrow> nat" where
  "send_pos cfg ws r e i = sum_list (take e (send_count cfg ws r)) + i"

definition recv_pos :: "config \<Rightarrow> worker list \<Rightarrow> nat \<Rightarrow> nat \<Rightarrow> nat \<Rightarrow> nat" where
  "recv_pos cfg ws r e i = sum_list (take r (recv_count cfg ws e)) + i"

definition kept :: "config \<Rightarrow> worker list \<Rightarrow> nat \<Rightarrow> nat \<Rightarrow> nat \<Rightarrow> bool" where
  "kept cfg ws r e i \<longleftrightarrow> recv_pos cfg ws r e i \<in> set (recv_tok_offsets cfg ws e)"

text \<open>
  Line 114 selects the rows of one slot index in the order of the send buffer, and line 115
  reads the sum of these selections as the returned batch. The scaled row at a send position
  is therefore a summand of the returned row whose index is the number of earlier send
  positions with the same slot index.
\<close>

definition out_row :: "config \<Rightarrow> worker list \<Rightarrow> nat \<Rightarrow> nat \<Rightarrow> nat \<Rightarrow> nat" where
  "out_row cfg ws r e i =
     (let p = send_pos cfg ws r e i; ids = send_ids cfg ws r
      in length (filter (\<lambda>c. snd (snd c) = snd (snd (ids ! p))) (take p ids)))"

subsection \<open>Well-formed inputs and example passes\<close>

text \<open>
  The tensors of a worker have the shapes the code reads from \<^verbatim>\<open>x.shape\<close>, and the
  experts selected by \<^verbatim>\<open>torch.topk\<close> are indices of the router's last dimension.
\<close>

definition wf_worker :: "config \<Rightarrow> nat \<Rightarrow> worker \<Rightarrow> bool" where
  "wf_worker cfg E w \<longleftrightarrow>
     0 < dim_C w \<and>
     list_all (\<lambda>row. length row = dim_T w \<and> list_all (\<lambda>tok. length tok = dim_C w) row) (x_in w) \<and>
     length (topk_experts w) = dim_B w \<and>
     list_all (\<lambda>row. length row = dim_T w \<and>
                 list_all (\<lambda>sl. length sl = moe_k cfg \<and> list_all (\<lambda>e. e < E) sl) row)
       (topk_experts w) \<and>
     length (topk_probs w) = dim_B w \<and>
     list_all (\<lambda>row. length row = dim_T w \<and> list_all (\<lambda>sl. length sl = moe_k cfg) row)
       (topk_probs w)"

text \<open>
  All workers run the same model, so they share the width \<open>C\<close>; with \<^verbatim>\<open>drop_last\<close> set,
  every batch has the same number of rows (the comment of line 52).
\<close>

definition uniform_batches :: "config \<Rightarrow> worker list \<Rightarrow> bool" where
  "uniform_batches cfg ws \<longleftrightarrow>
     (if drop_last cfg then list_all (\<lambda>w. dim_B w = dim_B (hd ws)) ws else True)"

definition wf_input :: "config \<Rightarrow> worker list \<Rightarrow> bool" where
  "wf_input cfg ws \<longleftrightarrow>
     list_all (wf_worker cfg (length ws)) ws \<and>
     list_all (\<lambda>w. dim_C w = dim_C (hd ws)) ws \<and>
     uniform_batches cfg ws"

text \<open>A batch of shape \<open>(B, T, C)\<close>.\<close>

definition has_shape :: "nat \<Rightarrow> nat \<Rightarrow> nat \<Rightarrow> real list list list \<Rightarrow> bool" where
  "has_shape B T C batch \<longleftrightarrow>
     length batch = B \<and>
     list_all (\<lambda>row. length row = T \<and> list_all (\<lambda>tok. length tok = C) row) batch"

text \<open>
  Two workers with one row of two elements each and \<open>k = 1\<close>; the capacity is 1. Worker
  0 routes both elements to expert 0, worker 1 routes both to expert 1, so every expert
  receives one row of two elements and truncates the second.
\<close>

definition ex_cfg :: config where
  "ex_cfg = \<lparr>moe_k = 1, capacity_factor = 1, padding_val = 0, drop_last = False\<rparr>"

definition ex_w0 :: worker where
  "ex_w0 = \<lparr>x_in = [[[1], [2]]], dim_T = 2, dim_C = 1,
            topk_probs = [[[1 / 2], [3 / 4]]], topk_experts = [[[0], [0]]]\<rparr>"

definition ex_w1 :: worker where
  "ex_w1 = \<lparr>x_in = [[[3], [4]]], dim_T = 2, dim_C = 1,
            topk_probs = [[[1 / 2], [1 / 4]]], topk_experts = [[[1], [1]]]\<rparr>"

text \<open>The same pass with the padding value 1.\<close>

definition ex_cfg_pad :: config where
  "ex_cfg_pad = \<lparr>moe_k = 1, capacity_factor = 1, padding_val = 1, drop_last = False\<rparr>"

text \<open>The same pass with worker 1 routing to expert 0 as well: expert 1 receives nothing.\<close>

definition ex_w1_to0 :: worker where
  "ex_w1_to0 = \<lparr>x_in = [[[3], [4]]], dim_T = 2, dim_C = 1,
               topk_probs = [[[1 / 2], [1 / 4]]], topk_experts = [[[0], [0]]]\<rparr>"

text \<open>The configuration \<^verbatim>\<open>MoE()\<close> builds by default.\<close>

definition ex_cfg_default :: config where
  "ex_cfg_default = \<lparr>moe_k = 2, capacity_factor = 5 / 4, padding_val = 0, drop_last = False\<rparr>"

text \<open>
  A pass without truncation (the capacity is 2) in which worker 0 routes its first element
  to expert 1 and its second to expert 0.
\<close>

definition ex_cfg_wide :: config where
  "ex_cfg_wide = \<lparr>moe_k = 1, capacity_factor = 2, padding_val = 0, drop_last = False\<rparr>"

definition ex_v0 :: worker where
  "ex_v0 = \<lparr>x_in = [[[1], [2]]], dim_T = 2, dim_C = 1,
            topk_probs = [[[1 / 2], [1 / 4]]], topk_experts = [[[1], [0]]]\<rparr>"

definition ex_expert :: "nat \<Rightarrow> real list \<Rightarrow> real list" where
  "ex_expert r tok = map (\<lambda>a. a * 10 + real r) tok"

text \<open>
  Two workers with one row of two elements each, \<open>k = 2\<close> and the padding value 1; the
  capacity is 1. Every element selects both experts, so every expert receives two slots of
  each row and truncates the second. On worker 0 the second element has the router weights
  1 and 0: its slot 0 is truncated at expert 1, its slot 1 at expert 0.
\<close>

definition ex_cfg_two :: config where
  "ex_cfg_two = \<lparr>moe_k = 2, capacity_factor = 1, padding_val = 1, drop_last = False\<rparr>"

definition ex_u0 :: worker where
  "ex_u0 = \<lparr>x_in = [[[1], [2]]], dim_T = 2, dim_C = 1,
            topk_probs = [[[3 / 4, 1 / 4], [1, 0]]], topk_experts = [[[0, 1], [1, 0]]]\<rparr>"

definition ex_u1 :: worker where
  "ex_u1 = \<lparr>x_in = [[[3], [4]]], dim_T = 2, dim_C = 1,
            topk_probs = [[[1 / 2, 1 / 2], [3 / 4, 1 / 4]]], topk_experts = [[[1, 0], [0, 1]]]\<rparr>"

text \<open>
  Seven workers with one row of 61 elements each, \<open>k = 1\<close> and the capacity factor 7; element
  \<open>t\<close> is routed to expert \<open>t mod 7\<close>.
\<close>

definition ex_cfg_seven :: config where
  "ex_cfg_seven = \<lparr>moe_k = 1, capacity_factor = 7, padding_val = 0, drop_last = False\<rparr>"

definition ex_w61 :: worker where
  "ex_w61 = \<lparr>x_in = [map (\<lambda>t. [real t]) [0..<61]], dim_T = 61, dim_C = 1,
             topk_probs = [replicate 61 [1]], topk_experts = [map (\<lambda>t. [t mod 7]) [0..<61]]\<rparr>"

section \<open>Properties\<close>

subsection \<open>Lists, splits and offsets\<close>

lemma split_by_concat: "split_by (map length cs) (concat cs) = cs"
  by (induction cs) auto

lemma split_by_nth:
  "i < length ns \<Longrightarrow> split_by ns buf ! i = take (ns ! i) (drop (sum_list (take i ns)) buf)"
proof (induction ns arbitrary: buf i)
  case Nil
  then show ?case by simp
next
  case (Cons n ns)
  show ?case
  proof (cases i)
    case 0
    then show ?thesis by simp
  next
    case (Suc i')
    with Cons.prems have "i' < length ns" by simp
    from Cons.IH [OF this, of "drop n buf"] Suc show ?thesis
      by (simp add: add.commute)
  qed
qed

lemma cumsum_from_nth:
  "i < length ys \<Longrightarrow> cumsum_from a ys ! i = a + sum_list (take (Suc i) ys)"
proof (induction ys arbitrary: a i)
  case Nil
  then show ?case by simp
next
  case (Cons y ys)
  show ?case
  proof (cases i)
    case 0
    then show ?thesis by simp
  next
    case (Suc i')
    with Cons.prems have "i' < length ys" by simp
    from Cons.IH [OF this, of "a + y"] Suc show ?thesis by simp
  qed
qed

lemma offsets_nth:
  "i \<le> length ys \<Longrightarrow> (0 # cumsum ys) ! i = sum_list (take i ys)"
  by (cases i) (simp_all add: cumsum_def cumsum_from_nth)

lemma concat_nth_offset:
  "e < length cs \<Longrightarrow> i < length (cs ! e) \<Longrightarrow>
   concat cs ! (sum_list (map length (take e cs)) + i) = cs ! e ! i"
proof (induction cs arbitrary: e)
  case Nil
  then show ?case by simp
next
  case (Cons c cs)
  show ?case
  proof (cases e)
    case 0
    with Cons.prems show ?thesis by (simp add: nth_append)
  next
    case (Suc e')
    with Cons.prems have "e' < length cs" "i < length (cs ! e')" by simp_all
    from Cons.IH [OF this] Suc show ?thesis
      by (simp add: nth_append add.assoc)
  qed
qed

lemma concat_offset_bound:
  "e < length cs \<Longrightarrow> i < length (cs ! e) \<Longrightarrow>
   sum_list (map length (take e cs)) + i < length (concat cs)"
proof (induction cs arbitrary: e)
  case Nil
  then show ?case by simp
next
  case (Cons c cs)
  show ?case
  proof (cases e)
    case 0
    with Cons.prems show ?thesis by simp
  next
    case (Suc e')
    with Cons.prems have "e' < length cs" "i < length (cs ! e')" by simp_all
    from Cons.IH [OF this] Suc show ?thesis by simp
  qed
qed

subsection \<open>What a rank receives\<close>

lemma send_ids_chunks:
  "send_ids cfg ws j =
     concat (map (\<lambda>e. map (global_id cfg ws j) (ids_per_expert cfg (ws ! j) e)) [0..<length ws])"
  by (simp add: send_ids_def map_concat comp_def)

lemma send_count_chunks:
  "send_count cfg ws j =
     map length (map (\<lambda>e. map f (ids_per_expert cfg (ws ! j) e)) [0..<length ws])"
  by (simp add: send_count_def comp_def)

lemma split_send_ids:
  "split_by (send_count cfg ws j) (send_ids cfg ws j) =
     map (\<lambda>e. map (global_id cfg ws j) (ids_per_expert cfg (ws ! j) e)) [0..<length ws]"
  unfolding send_ids_chunks send_count_chunks [where f = "global_id cfg ws j"]
  by (rule split_by_concat)

lemma split_send_toks:
  "split_by (send_count cfg ws j) (send_toks cfg ws j) =
     map (\<lambda>e. map (tok_at (ws ! j)) (ids_per_expert cfg (ws ! j) e)) [0..<length ws]"
  unfolding send_toks_def send_count_chunks [where f = "tok_at (ws ! j)"]
  by (rule split_by_concat)

lemma recv_ids_chunks:
  assumes "r < length ws"
  shows "recv_ids cfg ws r =
     concat (map (\<lambda>j. map (global_id cfg ws j) (ids_per_expert cfg (ws ! j) r)) [0..<length ws])"
proof -
  have "map (\<lambda>j. split_by (map (send_count cfg ws) [0..<length ws] ! j)
                    (map (send_ids cfg ws) [0..<length ws] ! j) ! r) [0..<length ws] =
        map (\<lambda>j. map (global_id cfg ws j) (ids_per_expert cfg (ws ! j) r)) [0..<length ws]"
    using assms by (intro map_cong refl) (simp add: split_send_ids)
  then show ?thesis
    unfolding recv_ids_def all_to_all_single_def by (simp only: length_map length_upt diff_zero)
qed

lemma recv_toks_chunks:
  assumes "r < length ws"
  shows "recv_toks cfg ws r =
     concat (map (\<lambda>j. map (tok_at (ws ! j)) (ids_per_expert cfg (ws ! j) r)) [0..<length ws])"
proof -
  have "map (\<lambda>j. split_by (map (send_count cfg ws) [0..<length ws] ! j)
                    (map (send_toks cfg ws) [0..<length ws] ! j) ! r) [0..<length ws] =
        map (\<lambda>j. map (tok_at (ws ! j)) (ids_per_expert cfg (ws ! j) r)) [0..<length ws]"
    using assms by (intro map_cong refl) (simp add: split_send_toks)
  then show ?thesis
    unfolding recv_toks_def all_to_all_single_def by (simp only: length_map length_upt diff_zero)
qed

lemma recv_count_eq:
  "r < length ws \<Longrightarrow>
   recv_count cfg ws r = map (\<lambda>j. length (ids_per_expert cfg (ws ! j) r)) [0..<length ws]"
  by (simp add: recv_count_def all_to_all_def send_count_def)

lemma recv_count_nth:
  "r < length ws \<Longrightarrow> j < length ws \<Longrightarrow> recv_count cfg ws r ! j = send_count cfg ws j ! r"
  by (simp add: recv_count_def all_to_all_def)

lemma length_recv_ids:
  "r < length ws \<Longrightarrow> length (recv_ids cfg ws r) = sum_list (recv_count cfg ws r)"
  by (simp add: recv_ids_chunks recv_count_eq length_concat comp_def)

lemma length_recv_toks:
  "r < length ws \<Longrightarrow> length (recv_toks cfg ws r) = sum_list (recv_count cfg ws r)"
  by (simp add: recv_toks_chunks recv_count_eq length_concat comp_def)

lemma sum_recv_count:
  "r < length ws \<Longrightarrow>
   sum_list (recv_count cfg ws r) = (\<Sum>j < length ws. send_count cfg ws j ! r)"
  by (simp add: recv_count_eq send_count_def sum_list_sum_nth atLeast0LessThan)

subsection \<open>The capacity and the exchange of the counts\<close>

text \<open>
  The rounding of line 94: the exponent is the right one, a result is not negative when its
  argument is not, and the relative error of one rounding is at most \<open>2 ^ (- 53)\<close>.
\<close>

lemma pow2_powr: "pow2 k = 2 powr (real_of_int k)"
proof (cases "0 \<le> k")
  case True
  then show ?thesis by (simp add: pow2_def powr_realpow [symmetric])
next
  case False
  then have "2 powr (real_of_int k) = 2 powr (- real (nat (- k)))" by simp
  also have "\<dots> = 1 / 2 ^ nat (- k)"
    by (simp only: powr_minus powr_realpow [OF zero_less_numeral] inverse_eq_divide)
  finally show ?thesis using False by (simp add: pow2_def)
qed

lemma pow2_pos: "0 < pow2 k"
  by (simp add: pow2_powr)

lemma pow2_add: "pow2 (j + k) = pow2 j * pow2 k"
  by (simp add: pow2_powr powr_add)

lemma pow2_cancel: "pow2 k * pow2 (- k) = 1"
  using pow2_add [of k "- k"] by (simp add: pow2_def)

lemma round_half_even_nonneg: "0 \<le> y \<Longrightarrow> 0 \<le> round_half_even y"
  by (simp add: round_half_even_def Let_def)

lemma round_half_even_error: "\<bar>real_of_int (round_half_even y) - y\<bar> \<le> 1 / 2"
  unfolding round_half_even_def Let_def by (auto split: if_splits)

lemma round_double_nonneg: "0 \<le> x \<Longrightarrow> 0 \<le> round_double x"
  using pow2_pos [of "52 - exponent_of \<bar>x\<bar>"] pow2_pos [of "- (52 - exponent_of \<bar>x\<bar>)"]
  by (auto simp add: round_double_def Let_def intro!: mult_nonneg_nonneg round_half_even_nonneg)

lemma exponent_of_lower:
  assumes "0 < a"
  shows "pow2 (exponent_of a) \<le> a"
proof (cases "1 \<le> a")
  case True
  then have pos: "0 < \<lfloor>a\<rfloor>" by linarith
  from bitlen_bounds [OF pos] have "2 ^ nat (bitlen \<lfloor>a\<rfloor> - 1) \<le> \<lfloor>a\<rfloor>" ..
  then have "real_of_int (2 ^ nat (bitlen \<lfloor>a\<rfloor> - 1)) \<le> real_of_int \<lfloor>a\<rfloor>"
    by (simp only: of_int_le_iff)
  also have "real_of_int \<lfloor>a\<rfloor> \<le> a" by (rule of_int_floor_le)
  finally have "(2::real) ^ nat (bitlen \<lfloor>a\<rfloor> - 1) \<le> a" by simp
  moreover have "0 \<le> bitlen \<lfloor>a\<rfloor> - 1"
    using pos bitlen_eq_zero_iff [of "\<lfloor>a\<rfloor>"] bitlen_nonneg [of "\<lfloor>a\<rfloor>"] by linarith
  ultimately show ?thesis using True by (simp add: exponent_of_def pow2_def)
next
  case False
  let ?m = "\<lceil>1 / a\<rceil> - 1"
  from False assms have "1 < 1 / a" by simp
  then have pos: "0 < ?m" by linarith
  from bitlen_bounds [OF pos] have "?m < 2 ^ nat (bitlen ?m)" ..
  then have "\<lceil>1 / a\<rceil> \<le> 2 ^ nat (bitlen ?m)" by linarith
  then have "real_of_int \<lceil>1 / a\<rceil> \<le> real_of_int (2 ^ nat (bitlen ?m))"
    by (simp only: of_int_le_iff)
  moreover have "1 / a \<le> real_of_int \<lceil>1 / a\<rceil>" by (rule le_of_int_ceiling)
  ultimately have "1 / a \<le> real_of_int (2 ^ nat (bitlen ?m))" by (rule order_trans [rotated])
  then have "1 / a \<le> 2 ^ nat (bitlen ?m)" by simp
  then have "1 \<le> 2 ^ nat (bitlen ?m) * a"
    using assms by (simp add: pos_divide_le_eq)
  then have "1 / 2 ^ nat (bitlen ?m) \<le> a"
    by (simp add: pos_divide_le_eq mult.commute)
  moreover have "0 < bitlen ?m"
    using pos bitlen_eq_zero_iff [of ?m] bitlen_nonneg [of ?m] by linarith
  ultimately show ?thesis using False by (simp add: exponent_of_def pow2_def)
qed

lemma exponent_of_upper:
  assumes "0 < a"
  shows "a < pow2 (exponent_of a + 1)"
proof (cases "1 \<le> a")
  case True
  then have pos: "0 < \<lfloor>a\<rfloor>" by linarith
  from bitlen_bounds [OF pos] have "\<lfloor>a\<rfloor> + 1 \<le> 2 ^ nat (bitlen \<lfloor>a\<rfloor>)" by simp
  then have "real_of_int (\<lfloor>a\<rfloor> + 1) \<le> real_of_int (2 ^ nat (bitlen \<lfloor>a\<rfloor>))"
    by (simp only: of_int_le_iff)
  then have "real_of_int \<lfloor>a\<rfloor> + 1 \<le> (2::real) ^ nat (bitlen \<lfloor>a\<rfloor>)" by simp
  moreover have "a < real_of_int \<lfloor>a\<rfloor> + 1" by linarith
  ultimately have "a < (2::real) ^ nat (bitlen \<lfloor>a\<rfloor>)" by (rule less_le_trans [rotated])
  then show ?thesis using True bitlen_nonneg [of "\<lfloor>a\<rfloor>"] by (simp add: exponent_of_def pow2_def)
next
  case False
  let ?m = "\<lceil>1 / a\<rceil> - 1"
  from False assms have "1 < 1 / a" by simp
  then have pos: "0 < ?m" by linarith
  have b: "1 \<le> bitlen ?m"
    using pos bitlen_eq_zero_iff [of ?m] bitlen_nonneg [of ?m] by linarith
  from bitlen_bounds [OF pos] have "2 ^ nat (bitlen ?m - 1) \<le> ?m" ..
  then have "real_of_int (2 ^ nat (bitlen ?m - 1)) \<le> real_of_int ?m"
    by (simp only: of_int_le_iff)
  moreover have "real_of_int ?m < 1 / a" by linarith
  ultimately have "(2::real) ^ nat (bitlen ?m - 1) < 1 / a" by simp
  then have "2 ^ nat (bitlen ?m - 1) * a < 1"
    using assms by (simp add: pos_less_divide_eq)
  then have lt: "a < 1 / 2 ^ nat (bitlen ?m - 1)"
    by (simp add: pos_less_divide_eq mult.commute)
  have "pow2 (exponent_of a + 1) = pow2 (- (bitlen ?m - 1))"
    using False by (simp add: exponent_of_def)
  also have "\<dots> = 1 / 2 ^ nat (bitlen ?m - 1)"
    using b by (cases "bitlen ?m = 1") (simp_all add: pow2_def)
  finally show ?thesis using lt by simp
qed

lemma round_double_error:
  assumes "0 < x"
  shows "\<bar>round_double x - x\<bar> \<le> x / 2 ^ 53"
proof -
  let ?e = "exponent_of x"
  let ?k = "52 - ?e"
  let ?m = "round_half_even (x * pow2 ?k)"
  have rd: "round_double x = of_int ?m * pow2 (- ?k)"
    using assms by (simp add: round_double_def Let_def)
  have "x = (x * pow2 ?k) * pow2 (- ?k)"
    using pow2_cancel [of ?k] by (simp add: mult.assoc)
  then have "round_double x - x = (of_int ?m - x * pow2 ?k) * pow2 (- ?k)"
    unfolding rd by (simp only: left_diff_distrib)
  then have "\<bar>round_double x - x\<bar> = \<bar>of_int ?m - x * pow2 ?k\<bar> * pow2 (- ?k)"
    using pow2_pos [of "- ?k"] by (simp add: abs_mult)
  also have "\<dots> \<le> 1 / 2 * pow2 (- ?k)"
    using round_half_even_error [of "x * pow2 ?k"] pow2_pos [of "- ?k"]
    by (intro mult_right_mono) simp_all
  also have "pow2 (- ?k) = pow2 ?e * pow2 (- 52)"
    using pow2_add [of ?e "- 52"] by simp
  also have "pow2 (- 52) = 1 / 2 ^ 52" by (simp add: pow2_def)
  also have "1 / 2 * (pow2 ?e * (1 / 2 ^ 52)) = pow2 ?e / 2 ^ 53" by simp
  also have "\<dots> \<le> x / 2 ^ 53"
    using exponent_of_lower [OF assms] by (simp add: divide_right_mono)
  finally show ?thesis .
qed

lemma capacity_of_near:
  assumes "1 \<le> T" and "1 \<le> E" and "0 \<le> cf" and "real T / real E * cf \<le> 2 ^ 51"
  shows "\<bar>capacity_of T E cf - \<lfloor>real T / real E * cf\<rfloor>\<bar> \<le> 1"
proof -
  let ?q = "real T / real E"
  let ?a = "round_double ?q"
  let ?b = "round_double (?a * cf)"
  have q: "0 < ?q" using assms(1,2) by simp
  have a0: "0 \<le> ?a" using q by (intro round_double_nonneg) simp
  have b0: "0 \<le> ?b" using a0 assms(3) by (intro round_double_nonneg) simp
  have cap: "capacity_of T E cf = \<lfloor>?b\<rfloor>" using b0 by (simp add: capacity_of_def py_int_def)
  have ea: "\<bar>?a - ?q\<bar> \<le> ?q / 2 ^ 53" by (rule round_double_error [OF q])
  have "\<bar>?b - ?q * cf\<bar> < 1"
  proof (cases "?a * cf = 0")
    case True
    then have "?b = 0" by (simp add: round_double_def)
    moreover have "cf = 0 \<or> ?a = 0" using True by auto
    then have "?q * cf \<le> 0"
    proof
      assume "cf = 0" then show ?thesis by simp
    next
      assume "?a = 0"
      with ea have "?q \<le> ?q / 2 ^ 53" by simp
      with q show ?thesis by simp
    qed
    moreover have "0 \<le> ?q * cf" using q assms(3) by (intro mult_nonneg_nonneg) simp_all
    ultimately have "?b = 0" and "?q * cf = 0" by (simp, linarith)
    then show ?thesis by (simp only: diff_zero abs_zero zero_less_one)
  next
    case False
    then have p: "0 < ?a * cf" using a0 assms(3) by (simp add: zero_less_mult_iff less_le)
    have eb: "\<bar>?b - ?a * cf\<bar> \<le> ?a * cf / 2 ^ 53" by (rule round_double_error [OF p])
    have "?a * cf - ?q * cf = (?a - ?q) * cf" by (simp only: left_diff_distrib)
    then have "\<bar>?a * cf - ?q * cf\<bar> = \<bar>?a - ?q\<bar> * cf"
      by (simp only: abs_mult abs_of_nonneg [OF assms(3)])
    also have "\<dots> \<le> ?q / 2 ^ 53 * cf" using ea assms(3) by (rule mult_right_mono)
    finally have e1: "\<bar>?a * cf - ?q * cf\<bar> \<le> ?q * cf / 2 ^ 53" by simp
    have "?q * cf / 2 ^ 53 \<le> 2 ^ 51 / 2 ^ 53"
      using assms(4) by (rule divide_right_mono) simp
    then have d1: "?q * cf / 2 ^ 53 \<le> 1 / 4" by simp
    from e1 d1 have "?a * cf \<le> ?q * cf + 1 / 4" by linarith
    with assms(4) have "?a * cf \<le> 2 ^ 51 + 1 / 4" by linarith
    then have "?a * cf / 2 ^ 53 \<le> (2 ^ 51 + 1 / 4) / 2 ^ 53"
      by (rule divide_right_mono) simp
    then have d2: "?a * cf / 2 ^ 53 \<le> 1 / 2" by simp
    from eb e1 d1 d2 show ?thesis by linarith
  qed
  then have "\<bar>\<lfloor>?b\<rfloor> - \<lfloor>?q * cf\<rfloor>\<bar> \<le> 1" by linarith
  with cap show ?thesis by simp
qed
subsection \<open>The received row ids are sorted\<close>

lemma set_coords:
  "set (coords B T K) = {(b, t, s). b < B \<and> t < T \<and> s < K}"
  by (force simp: coords_def)

lemma sorted_all_equal: "\<forall>x \<in> set xs. x = (c::nat) \<Longrightarrow> sorted xs"
  by (induction xs) auto

lemma coords_Suc:
  "coords (Suc B) T K = coords B T K @ concat (map (\<lambda>t. map (\<lambda>s. (B, t, s)) [0..<K]) [0..<T])"
  by (simp add: coords_def)

lemma sorted_fst_coords: "sorted (map fst (coords B T K))"
proof (induction B)
  case 0
  show ?case by (simp add: coords_def)
next
  case (Suc B)
  have last_rows: "\<forall>b \<in> set (map fst (concat (map (\<lambda>t. map (\<lambda>s. (B, t, s)) [0..<K]) [0..<T]))). b = B"
    by auto
  have below: "\<forall>c \<in> set (coords B T K). fst c \<le> B"
    by (auto simp: set_coords)
  show ?case
    unfolding coords_Suc map_append sorted_append
    using Suc below sorted_all_equal [OF last_rows] last_rows by auto
qed

lemma set_ids_per_expert:
  "c \<in> set (ids_per_expert cfg w e) \<Longrightarrow> fst c < dim_B w"
  by (auto simp: ids_per_expert_def set_coords)

lemma sorted_fst_ids_per_expert: "sorted (map fst (ids_per_expert cfg w e))"
  unfolding ids_per_expert_def by (rule sorted_filter) (rule sorted_fst_coords)

lemma fst_global_id: "fst (global_id cfg ws j c) = fst c + batch_inits cfg ws j ! j"
  by (cases c) (simp add: global_id_def)

lemma fst_chunk:
  "map fst (map (global_id cfg ws j) cs) = map (\<lambda>b. b + batch_inits cfg ws j ! j) (map fst cs)"
  by (induction cs) (simp_all add: fst_global_id)

lemma sorted_fst_chunk:
  "sorted (map fst (map (global_id cfg ws j) (ids_per_expert cfg (ws ! j) e)))"
  unfolding fst_chunk
  by (rule sorted_map_mono [OF sorted_fst_ids_per_expert]) (simp add: mono_on_def)

lemma sorted_concat_upt:
  assumes "\<And>j. j < n \<Longrightarrow> sorted (f j)"
    and "\<And>i j x y. i < j \<Longrightarrow> j < n \<Longrightarrow> x \<in> set (f i) \<Longrightarrow> y \<in> set (f j) \<Longrightarrow> x \<le> (y::nat)"
  shows "sorted (concat (map f [0..<n]))"
  using assms
proof (induction n)
  case 0
  show ?case by simp
next
  case (Suc n)
  have "sorted (concat (map f [0..<n]))"
    by (rule Suc.IH) (auto intro: Suc.prems(1) Suc.prems(2))
  moreover have "sorted (f n)" by (rule Suc.prems(1)) simp
  moreover have "\<forall>x \<in> set (concat (map f [0..<n])). \<forall>y \<in> set (f n). x \<le> y"
    using Suc.prems(2) [of _ n] by auto
  ultimately show ?case by (simp add: sorted_append)
qed

text \<open>The first global row of a rank, and the first row after its batch.\<close>

lemma batch_inits_cumsum:
  "\<not> drop_last cfg \<Longrightarrow> j \<le> length ws \<Longrightarrow>
   batch_inits cfg ws r ! j = sum_list (take j (map dim_B ws))"
  using offsets_nth [of "Suc j" "0 # map dim_B ws"]
  by (simp add: batch_inits_def cumsum_def cumsum_from_nth)

lemma batch_inits_fixed:
  "drop_last cfg \<Longrightarrow> j \<le> length ws \<Longrightarrow> batch_inits cfg ws r ! j = j * dim_B (ws ! r)"
  using nth_map_upt [of j "length ws + 1" 0 "\<lambda>i. i * dim_B (ws ! r)"]
  by (simp add: batch_inits_def del: upt_Suc)

lemma sum_list_take_mono:
  "i \<le> j \<Longrightarrow> sum_list (take i ns) \<le> sum_list (take j (ns::nat list))"
proof (induction ns arbitrary: i j)
  case Nil
  show ?case by simp
next
  case (Cons n ns)
  show ?case
  proof (cases i)
    case 0
    then show ?thesis by simp
  next
    case (Suc i')
    with Cons.prems obtain j' where "j = Suc j'" "i' \<le> j'" by (cases j) auto
    with Cons.IH [of i' j'] Suc show ?thesis by simp
  qed
qed

lemma sum_list_take_Suc:
  "i < length ns \<Longrightarrow> sum_list (take (Suc i) ns) = sum_list (take i ns) + (ns ! i :: nat)"
  by (simp add: take_Suc_conv_app_nth)

lemma batch_ranges_increase:
  assumes "uniform_batches cfg ws" and "i < j" and "j < length ws"
  shows "batch_inits cfg ws i ! i + dim_B (ws ! i) \<le> batch_inits cfg ws j ! j"
proof (cases "drop_last cfg")
  case False
  from assms have "sum_list (take (Suc i) (map dim_B ws)) \<le> sum_list (take j (map dim_B ws))"
    by (intro sum_list_take_mono) simp
  with assms False show ?thesis
    by (simp add: batch_inits_cumsum sum_list_take_Suc)
next
  case True
  with assms have "dim_B (ws ! i) = dim_B (hd ws)" "dim_B (ws ! j) = dim_B (hd ws)"
    by (simp_all add: uniform_batches_def list_all_length)
  moreover from assms have "Suc i * dim_B (hd ws) \<le> j * dim_B (hd ws)"
    by (intro mult_le_mono1) simp
  ultimately show ?thesis
    using assms True by (simp add: batch_inits_fixed)
qed

lemma chunk_ids_increase:
  assumes "uniform_batches cfg ws" and "i < j" and "j < length ws"
    and "c \<in> set (ids_per_expert cfg (ws ! i) e)" and "c' \<in> set (ids_per_expert cfg (ws ! j) e')"
  shows "fst (global_id cfg ws i c) < fst (global_id cfg ws j c')"
  using batch_ranges_increase [OF assms(1-3)] set_ids_per_expert [OF assms(4)]
  by (simp add: fst_global_id)

lemma sorted_recv_ids:
  assumes "uniform_batches cfg ws" and "r < length ws"
  shows "sorted (map fst (recv_ids cfg ws r))"
proof -
  have "map fst (recv_ids cfg ws r) =
        concat (map (\<lambda>j. map fst (map (global_id cfg ws j) (ids_per_expert cfg (ws ! j) r)))
          [0..<length ws])"
    using assms(2) by (simp add: recv_ids_chunks map_concat comp_def)
  moreover have "sorted \<dots>"
  proof (rule sorted_concat_upt)
    fix j show "sorted (map fst (map (global_id cfg ws j) (ids_per_expert cfg (ws ! j) r)))"
      by (rule sorted_fst_chunk)
  next
    fix i j x y
    assume "i < j" "j < length ws"
      and "x \<in> set (map fst (map (global_id cfg ws i) (ids_per_expert cfg (ws ! i) r)))"
      and "y \<in> set (map fst (map (global_id cfg ws j) (ids_per_expert cfg (ws ! j) r)))"
    then show "x \<le> y"
      using chunk_ids_increase [OF assms(1), of i j _ r _ r] by (auto simp: less_imp_le)
  qed
  ultimately show ?thesis by simp
qed

subsection \<open>Slices of a list with sorted keys\<close>

lemma take_filter_le:
  "sorted (map fst ps) \<Longrightarrow>
   take (length (filter (\<lambda>p. fst p \<le> (v::nat)) ps)) ps = filter (\<lambda>p. fst p \<le> v) ps"
proof (induction ps)
  case Nil
  show ?case by simp
next
  case (Cons p ps)
  show ?case
  proof (cases "fst p \<le> v")
    case True
    with Cons show ?thesis by simp
  next
    case False
    with Cons.prems have "\<forall>q \<in> set ps. \<not> fst q \<le> v" by auto
    then have "filter (\<lambda>p. fst p \<le> v) ps = []" by (simp add: filter_empty_conv)
    with False show ?thesis by simp
  qed
qed

lemma drop_filter_less:
  "sorted (map fst ps) \<Longrightarrow>
   drop (length (filter (\<lambda>p. fst p < (v::nat)) ps)) ps = filter (\<lambda>p. v \<le> fst p) ps"
proof (induction ps)
  case Nil
  show ?case by simp
next
  case (Cons p ps)
  show ?case
  proof (cases "fst p < v")
    case True
    with Cons show ?thesis by simp
  next
    case False
    with Cons.prems have all: "\<forall>q \<in> set (p # ps). v \<le> fst q" by auto
    then have "filter (\<lambda>p. fst p < v) (p # ps) = []"
      unfolding filter_empty_conv by (auto simp: not_less)
    moreover from all have "filter (\<lambda>p. v \<le> fst p) (p # ps) = p # ps"
      unfolding filter_id_conv by simp
    ultimately show ?thesis by simp
  qed
qed

lemma slice_sorted_keys:
  assumes "sorted (map fst ps)"
  shows "drop (length (filter (\<lambda>p. fst p < (v::nat)) ps))
           (take (length (filter (\<lambda>p. fst p \<le> v) ps)) ps) = filter (\<lambda>p. fst p = v) ps"
proof -
  let ?le = "filter (\<lambda>p. fst p \<le> v) ps"
  have "sorted (map fst ?le)" using assms by (rule sorted_filter)
  from drop_filter_less [OF this, of v]
  have "drop (length (filter (\<lambda>p. fst p < v) ?le)) ?le = filter (\<lambda>p. v \<le> fst p) ?le" .
  moreover have "filter (\<lambda>p. fst p < v) ?le = filter (\<lambda>p. fst p < v) ps"
    by (auto intro: filter_cong)
  moreover have "filter (\<lambda>p. v \<le> fst p) ?le = filter (\<lambda>p. fst p = v) ps"
    by (auto intro: filter_cong)
  ultimately show ?thesis
    by (simp add: take_filter_le [OF assms])
qed

lemma count_list_filter: "count_list ys v = length (filter (\<lambda>y. y = v) ys)"
  by (induction ys) auto

lemma length_filter_less_eq:
  "length (filter (\<lambda>y. y < v) ys) + length (filter (\<lambda>y. y = v) ys) =
   length (filter (\<lambda>y. y \<le> (v::nat)) ys)"
  by (induction ys) auto

lemma sum_count_list_distinct:
  "distinct vs \<Longrightarrow> sum_list (map (count_list ys) vs) = length (filter (\<lambda>y. y \<in> set vs) ys)"
proof (induction vs)
  case Nil
  show ?case by simp
next
  case (Cons v vs)
  have "length (filter (\<lambda>y. y \<in> set (v # vs)) ys) =
        length (filter (\<lambda>y. y = v) ys) + length (filter (\<lambda>y. y \<in> set vs) ys)"
    using Cons.prems by (induction ys) auto
  then show ?case using Cons by (simp add: count_list_filter)
qed

lemma sorted_distinct_take_less:
  assumes "sorted u" and "distinct u" and "i < length u" and "y \<in> set u"
  shows "y \<in> set (take i u) \<longleftrightarrow> y < (u ! i :: nat)"
proof -
  from assms(4) obtain a where a: "a < length u" "y = u ! a" by (auto simp: in_set_conv_nth)
  have strict: "sorted_wrt (<) u" using assms(1,2) by (simp add: strict_sorted_iff)
  show ?thesis
  proof
    assume "y \<in> set (take i u)"
    then obtain b where b: "b < i" "b < length u" "y = u ! b"
      by (auto simp: in_set_conv_nth)
    with strict assms(3) show "y < u ! i" by (simp add: sorted_wrt_nth_less)
  next
    assume "y < u ! i"
    have "a < i"
    proof (rule ccontr)
      assume "\<not> a < i"
      then have "i \<le> a" by simp
      with assms(1) a have "u ! i \<le> u ! a" by (simp add: sorted_iff_nth_mono)
      with \<open>y < u ! i\<close> a show False by simp
    qed
    with a assms(3) show "y \<in> set (take i u)"
      by (auto simp: in_set_conv_nth)
  qed
qed

lemma unique_offsets_less:
  fixes ys :: "nat list"
  assumes "i < length (remdups (sort ys))"
  shows "sum_list (take i (map (count_list ys) (remdups (sort ys)))) =
         length (filter (\<lambda>y. y < remdups (sort ys) ! i) ys)"
proof -
  let ?u = "remdups (sort ys)"
  have u: "sorted ?u" "distinct ?u" "set ?u = set ys" by simp_all
  have "sum_list (take i (map (count_list ys) ?u)) = sum_list (map (count_list ys) (take i ?u))"
    by (simp add: take_map)
  also have "\<dots> = length (filter (\<lambda>y. y \<in> set (take i ?u)) ys)"
    by (rule sum_count_list_distinct) simp
  also have "filter (\<lambda>y. y \<in> set (take i ?u)) ys = filter (\<lambda>y. y < ?u ! i) ys"
    using sorted_distinct_take_less [OF u(1,2) assms] u(3) by (intro filter_cong) auto
  finally show ?thesis .
qed

lemma unique_offsets_le:
  fixes ys :: "nat list"
  assumes "i < length (remdups (sort ys))"
  shows "sum_list (take (Suc i) (map (count_list ys) (remdups (sort ys)))) =
         length (filter (\<lambda>y. y \<le> remdups (sort ys) ! i) ys)"
proof -
  let ?u = "remdups (sort ys)"
  have "sum_list (take (Suc i) (map (count_list ys) ?u)) =
        sum_list (take i (map (count_list ys) ?u)) + count_list ys (?u ! i)"
    using assms by (simp add: sum_list_take_Suc)
  also have "\<dots> = length (filter (\<lambda>y. y < ?u ! i) ys) + length (filter (\<lambda>y. y = ?u ! i) ys)"
    using unique_offsets_less [OF assms] by (simp add: count_list_filter)
  also have "\<dots> = length (filter (\<lambda>y. y \<le> ?u ! i) ys)"
    by (rule length_filter_less_eq)
  finally show ?thesis .
qed

subsection \<open>The slices of line 91 are the groups by row id\<close>

lemma uniq_rows_eq: "uniq_rows cfg ws r = remdups (sort (map fst (recv_ids cfg ws r)))"
  by (simp add: uniq_rows_def unique_counts_def Let_def)

lemma recv_row_lens_eq:
  "recv_row_lens cfg ws r =
     map (count_list (map fst (recv_ids cfg ws r))) (remdups (sort (map fst (recv_ids cfg ws r))))"
  by (simp add: recv_row_lens_def unique_counts_def Let_def)

lemma length_recv_row_lens: "length (recv_row_lens cfg ws r) = length (uniq_rows cfg ws r)"
  by (simp add: recv_row_lens_eq uniq_rows_eq)

lemma recv_row_offsets_nth:
  "i \<le> length (uniq_rows cfg ws r) \<Longrightarrow>
   recv_row_offsets cfg ws r ! i = sum_list (take i (recv_row_lens cfg ws r))"
  unfolding recv_row_offsets_def by (rule offsets_nth) (simp add: length_recv_row_lens)

lemma recv_row_offsets_less:
  "i < length (uniq_rows cfg ws r) \<Longrightarrow>
   recv_row_offsets cfg ws r ! i =
     length (filter (\<lambda>y. y < uniq_rows cfg ws r ! i) (map fst (recv_ids cfg ws r)))"
  using unique_offsets_less [of i "map fst (recv_ids cfg ws r)"]
  by (simp add: recv_row_offsets_nth) (simp add: recv_row_lens_eq uniq_rows_eq)

lemma recv_row_offsets_le:
  "i < length (uniq_rows cfg ws r) \<Longrightarrow>
   recv_row_offsets cfg ws r ! (i + 1) =
     length (filter (\<lambda>y. y \<le> uniq_rows cfg ws r ! i) (map fst (recv_ids cfg ws r)))"
  using unique_offsets_le [of i "map fst (recv_ids cfg ws r)"]
  by (simp add: recv_row_offsets_nth) (simp add: recv_row_lens_eq uniq_rows_eq)

lemma length_filter_zip_fst:
  "length ys = length zs \<Longrightarrow>
   length (filter (\<lambda>p. P (fst p)) (zip ys zs)) = length (filter P ys)"
proof (induction ys arbitrary: zs)
  case Nil
  show ?case by simp
next
  case (Cons y ys)
  then obtain z zs' where "zs = z # zs'" by (cases zs) auto
  with Cons show ?case by simp
qed

text \<open>The feature vectors that arrived with the row id \<open>v\<close>, in the order of arrival.\<close>

lemma slice_is_group:
  assumes "uniform_batches cfg ws" and "r < length ws" and "i < length (uniq_rows cfg ws r)"
    and "length buf = length (recv_ids cfg ws r)"
  shows "recv_row_slice cfg ws r i buf =
         map snd (filter (\<lambda>p. fst (fst p) = uniq_rows cfg ws r ! i) (zip (recv_ids cfg ws r) buf))"
proof -
  let ?ys = "map fst (recv_ids cfg ws r)"
  let ?ps = "zip ?ys buf"
  let ?v = "uniq_rows cfg ws r ! i"
  have len: "length ?ys = length buf" using assms(4) by simp
  have keys: "map fst ?ps = ?ys" using len by simp
  have vals: "map snd ?ps = buf" using len by simp
  have sorted: "sorted (map fst ?ps)"
    unfolding keys by (rule sorted_recv_ids [OF assms(1,2)])
  have lo: "recv_row_offsets cfg ws r ! i = length (filter (\<lambda>p. fst p < ?v) ?ps)"
    unfolding recv_row_offsets_less [OF assms(3)]
    by (rule length_filter_zip_fst [OF len, symmetric])
  have hi: "recv_row_offsets cfg ws r ! (i + 1) = length (filter (\<lambda>p. fst p \<le> ?v) ?ps)"
    unfolding recv_row_offsets_le [OF assms(3)]
    by (rule length_filter_zip_fst [OF len, symmetric])
  have "recv_row_slice cfg ws r i buf =
        map snd (drop (recv_row_offsets cfg ws r ! i)
                   (take (recv_row_offsets cfg ws r ! (i + 1)) ?ps))"
    unfolding recv_row_slice_def drop_map [symmetric] take_map [symmetric] vals ..
  also have "\<dots> = map snd (filter (\<lambda>p. fst p = ?v) ?ps)"
    unfolding lo hi slice_sorted_keys [OF sorted] ..
  also have "?ps = map (\<lambda>p. (fst (fst p), snd p)) (zip (recv_ids cfg ws r) buf)"
    by (simp add: zip_map1 case_prod_beta)
  finally show ?thesis
    by (simp add: filter_map comp_def)
qed

subsection \<open>Index assignment and row offsets\<close>

lemma length_fold_update:
  "length (fold (\<lambda>(i, v) b. b[i := v]) ps buf) = length buf"
  by (induction ps arbitrary: buf) (auto simp: case_prod_beta)

lemma fold_update_same:
  "q < length buf \<Longrightarrow>
   (fold (\<lambda>(i, v) b. b[i := v]) (map (\<lambda>q. (q, h q)) idxs) buf) ! q =
     (if q \<in> set idxs then h q else buf ! q)"
proof (induction idxs arbitrary: buf)
  case Nil
  show ?case by simp
next
  case (Cons a idxs)
  from Cons.prems have "q < length (buf[a := h a])" by simp
  from Cons.IH [OF this] Cons.prems show ?case
    by (simp add: nth_list_update)
qed

lemma length_index_put: "length (index_put buf idxs vals) = length buf"
  by (simp add: index_put_def length_fold_update)

lemma index_put_same:
  "q < length buf \<Longrightarrow>
   index_put buf idxs (map h idxs) ! q = (if q \<in> set idxs then h q else buf ! q)"
proof -
  have "zip idxs (map h idxs) = map (\<lambda>q. (q, h q)) idxs"
    by (induction idxs) auto
  then show "q < length buf \<Longrightarrow> ?thesis"
    by (simp add: index_put_def fold_update_same)
qed

lemma sum_recv_row_lens:
  "sum_list (recv_row_lens cfg ws r) = length (recv_ids cfg ws r)"
proof -
  let ?ys = "map fst (recv_ids cfg ws r)"
  have "sum_list (map (count_list ?ys) (remdups (sort ?ys))) =
        length (filter (\<lambda>y. y \<in> set (remdups (sort ?ys))) ?ys)"
    by (rule sum_count_list_distinct) simp
  also have "filter (\<lambda>y. y \<in> set (remdups (sort ?ys))) ?ys = ?ys"
    unfolding filter_id_conv by simp
  finally show ?thesis by (simp add: recv_row_lens_eq)
qed

lemma recv_row_offsets_Suc:
  "i < length (uniq_rows cfg ws r) \<Longrightarrow>
   recv_row_offsets cfg ws r ! Suc i = recv_row_offsets cfg ws r ! i + recv_row_lens cfg ws r ! i"
  by (simp add: recv_row_offsets_nth sum_list_take_Suc length_recv_row_lens)

lemma recv_row_offsets_bound:
  "i \<le> length (uniq_rows cfg ws r) \<Longrightarrow> recv_row_offsets cfg ws r ! i \<le> length (recv_ids cfg ws r)"
  using sum_list_take_mono [of i "length (recv_row_lens cfg ws r)" "recv_row_lens cfg ws r"]
  by (simp add: recv_row_offsets_nth length_recv_row_lens sum_recv_row_lens)

lemma length_recv_row_slice:
  assumes "i < length (uniq_rows cfg ws r)" and "length buf = length (recv_ids cfg ws r)"
  shows "length (recv_row_slice cfg ws r i buf) = recv_row_lens cfg ws r ! i"
  using recv_row_offsets_bound [of "Suc i" cfg ws r] assms
  by (simp add: recv_row_slice_def recv_row_offsets_Suc)

lemma recv_row_slice_nth:
  assumes "i < length (uniq_rows cfg ws r)" and "length buf = length (recv_ids cfg ws r)"
    and "j < recv_row_lens cfg ws r ! i"
  shows "recv_row_slice cfg ws r i buf ! j = buf ! (recv_row_offsets cfg ws r ! i + j)"
  using recv_row_offsets_bound [of "Suc i" cfg ws r] assms
  by (simp add: recv_row_slice_def recv_row_offsets_Suc)

lemma pad_rows_nth:
  "int j < int (length toks) + d \<Longrightarrow> j < length toks \<Longrightarrow> pad_rows C toks d v ! j = toks ! j"
  by (auto simp: pad_rows_def nth_append)

lemma length_pad_rows:
  "0 \<le> int (length toks) + d \<Longrightarrow> length (pad_rows C toks d v) = nat (int (length toks) + d)"
  by (auto simp: pad_rows_def)

lemma batch_row_len_nth:
  "i < length (uniq_rows cfg ws r) \<Longrightarrow>
   batch_row_len cfg ws r ! i = nat (min (int (recv_row_lens cfg ws r ! i)) (capacity cfg ws r))"
  by (simp add: batch_row_len_def)

lemma batch_row_len_le:
  "i < length (uniq_rows cfg ws r) \<Longrightarrow> batch_row_len cfg ws r ! i \<le> recv_row_lens cfg ws r ! i"
  by (simp add: batch_row_len_nth)

subsection \<open>The buffer of results\<close>

lemma batch_toks_Inr:
  assumes "batch_toks cfg ws r = Inr bt"
  shows "uniq_rows cfg ws r \<noteq> []" and "0 \<le> capacity cfg ws r"
    and "bt = map (\<lambda>i. pad_fn cfg ws r (recv_row_slice cfg ws r i (recv_toks cfg ws r)))
                [0..<length (uniq_rows cfg ws r)]"
  using assms by (auto simp: batch_toks_def split: if_splits)

lemma length_pad_fn:
  "0 \<le> capacity cfg ws r \<Longrightarrow> length (pad_fn cfg ws r toks) = nat (capacity cfg ws r)"
  by (simp add: pad_fn_def length_pad_rows)

lemma pad_fn_nth:
  "int j < capacity cfg ws r \<Longrightarrow> j < length toks \<Longrightarrow> pad_fn cfg ws r toks ! j = toks ! j"
  by (simp add: pad_fn_def pad_rows_nth)

lemma length_ids_toks:
  "r < length ws \<Longrightarrow> length (recv_toks cfg ws r) = length (recv_ids cfg ws r)"
  by (simp add: length_recv_ids length_recv_toks)

lemma expert_out_nth:
  assumes "r < length ws" and "batch_toks cfg ws r = Inr bt"
    and "i < length (uniq_rows cfg ws r)" and "j < batch_row_len cfg ws r ! i"
  shows "map (map (expert r)) bt ! i ! j =
         expert r (recv_toks cfg ws r ! (recv_row_offsets cfg ws r ! i + j))"
proof -
  let ?slice = "recv_row_slice cfg ws r i (recv_toks cfg ws r)"
  note bt = batch_toks_Inr [OF assms(2)]
  from assms(3,4) have j: "j < recv_row_lens cfg ws r ! i" "int j < capacity cfg ws r"
    by (simp_all add: batch_row_len_nth)
  have len: "length ?slice = recv_row_lens cfg ws r ! i"
    by (rule length_recv_row_slice [OF assms(3) length_ids_toks [OF assms(1)]])
  have "bt ! i = pad_fn cfg ws r ?slice"
    using assms(3) by (simp add: bt(3))
  moreover have "length (pad_fn cfg ws r ?slice) = nat (capacity cfg ws r)"
    by (rule length_pad_fn [OF bt(2)])
  moreover have "pad_fn cfg ws r ?slice ! j = ?slice ! j"
    using j len by (intro pad_fn_nth) simp_all
  moreover have "?slice ! j = recv_toks cfg ws r ! (recv_row_offsets cfg ws r ! i + j)"
    by (rule recv_row_slice_nth [OF assms(3) length_ids_toks [OF assms(1)] j(1)])
  moreover have "length bt = length (uniq_rows cfg ws r)"
    by (simp add: bt(3))
  ultimately show ?thesis
    using assms(3) j(2) by simp
qed

lemma upt_shift: "[n..<n + m] = map (\<lambda>j. n + j) [0..<m]"
  by (induction m) simp_all

lemma result_vals:
  assumes "r < length ws" and "batch_toks cfg ws r = Inr bt"
  shows "map (\<lambda>(i, j). map (map (expert r)) bt ! i ! j) (batch_tok_offsets cfg ws r) =
         map (\<lambda>q. expert r (recv_toks cfg ws r ! q)) (recv_tok_offsets cfg ws r)"
proof -
  have "map (\<lambda>i. map (\<lambda>(i, j). map (map (expert r)) bt ! i ! j)
                (map (\<lambda>j. (i, j)) [0..<batch_row_len cfg ws r ! i]))
          [0..<length (uniq_rows cfg ws r)] =
        map (\<lambda>i. map (\<lambda>q. expert r (recv_toks cfg ws r ! q))
                [recv_row_offsets cfg ws r ! i ..<
                 recv_row_offsets cfg ws r ! i + batch_row_len cfg ws r ! i])
          [0..<length (uniq_rows cfg ws r)]"
  proof (rule map_cong [OF refl])
    fix i assume "i \<in> set [0..<length (uniq_rows cfg ws r)]"
    then have i: "i < length (uniq_rows cfg ws r)" by simp
    show "map (\<lambda>(i, j). map (map (expert r)) bt ! i ! j)
                 (map (\<lambda>j. (i, j)) [0..<batch_row_len cfg ws r ! i]) =
               map (\<lambda>q. expert r (recv_toks cfg ws r ! q))
                 [recv_row_offsets cfg ws r ! i ..<
                  recv_row_offsets cfg ws r ! i + batch_row_len cfg ws r ! i]"
      unfolding upt_shift map_map
      by (rule map_cong [OF refl]) (simp add: expert_out_nth [OF assms i])
  qed
  then show ?thesis
    unfolding batch_tok_offsets_def recv_tok_offsets_def map_concat map_map comp_def
    by (simp only:)
qed

lemma result_toks_Inr:
  assumes "result_toks cfg expert ws r = Inr res"
  obtains bt where "batch_toks cfg ws r = Inr bt"
  using assms by (auto simp: result_toks_def expert_out_def split: sum.splits)

lemma result_toks_eq:
  assumes "r < length ws" and "result_toks cfg expert ws r = Inr res"
  shows "res = index_put
                 (map (\<lambda>tok. replicate (length tok) (padding_val cfg)) (recv_toks cfg ws r))
                 (recv_tok_offsets cfg ws r)
                 (map (\<lambda>q. expert r (recv_toks cfg ws r ! q)) (recv_tok_offsets cfg ws r))"
proof -
  from assms(2) obtain bt where bt: "batch_toks cfg ws r = Inr bt" by (rule result_toks_Inr)
  from assms(2) bt show ?thesis
    by (simp add: result_toks_def expert_out_def result_vals [OF assms(1) bt])
qed

lemma length_result_toks:
  assumes "r < length ws" and "result_toks cfg expert ws r = Inr res"
  shows "length res = length (recv_toks cfg ws r)"
  unfolding result_toks_eq [OF assms] by (simp add: length_index_put)

lemma result_toks_nth:
  assumes "r < length ws" and "result_toks cfg expert ws r = Inr res"
    and "q < length (recv_toks cfg ws r)"
  shows "res ! q =
     (if q \<in> set (recv_tok_offsets cfg ws r) then expert r (recv_toks cfg ws r ! q)
      else replicate (length (recv_toks cfg ws r ! q)) (padding_val cfg))"
  unfolding result_toks_eq [OF assms(1,2)] using assms(3)
  by (simp add: index_put_same)

subsection \<open>Positions in the send and receive buffers\<close>

lemma take_send_count:
  "e \<le> length ws \<Longrightarrow>
   sum_list (take e (send_count cfg ws r)) =
     sum_list (map length (take e (map (\<lambda>e. map f (ids_per_expert cfg (ws ! r) e)) [0..<length ws])))"
  by (simp add: send_count_def take_map comp_def)

lemma send_chunk_nth:
  assumes "e < length ws" and "i < length (ids_per_expert cfg (ws ! r) e)"
  shows "concat (map (\<lambda>e. map f (ids_per_expert cfg (ws ! r) e)) [0..<length ws]) !
           send_pos cfg ws r e i = f (ids_per_expert cfg (ws ! r) e ! i)"
  using concat_nth_offset [of e "map (\<lambda>e. map f (ids_per_expert cfg (ws ! r) e)) [0..<length ws]" i]
    assms
  by (simp add: send_pos_def take_send_count [where f = f])

lemma send_pos_bound:
  assumes "e < length ws" and "i < length (ids_per_expert cfg (ws ! r) e)"
  shows "send_pos cfg ws r e i < sum_list (send_count cfg ws r)"
  using concat_offset_bound [of e "map (\<lambda>e. ids_per_expert cfg (ws ! r) e) [0..<length ws]" i] assms
  by (simp add: send_pos_def send_count_def length_concat take_map comp_def)

lemma recv_chunk_nth:
  assumes "r < length ws" and "e < length ws" and "i < length (ids_per_expert cfg (ws ! r) e)"
  shows "concat (map (\<lambda>j. map (f j) (ids_per_expert cfg (ws ! j) e)) [0..<length ws]) !
           recv_pos cfg ws r e i = f r (ids_per_expert cfg (ws ! r) e ! i)"
proof -
  have "sum_list (take r (recv_count cfg ws e)) =
     sum_list (map length (take r (map (\<lambda>j. map (f j) (ids_per_expert cfg (ws ! j) e)) [0..<length ws])))"
    using assms(2) by (simp add: recv_count_eq take_map comp_def)
  then show ?thesis
    using concat_nth_offset [of r "map (\<lambda>j. map (f j) (ids_per_expert cfg (ws ! j) e)) [0..<length ws]" i]
      assms
    by (simp add: recv_pos_def)
qed

lemma recv_pos_bound:
  assumes "r < length ws" and "e < length ws" and "i < length (ids_per_expert cfg (ws ! r) e)"
  shows "recv_pos cfg ws r e i < length (recv_toks cfg ws e)"
  using concat_offset_bound [of r "map (\<lambda>j. ids_per_expert cfg (ws ! j) e) [0..<length ws]" i] assms
  by (simp add: recv_pos_def length_recv_toks recv_count_eq length_concat take_map comp_def)

lemma probs_nth:
  assumes "e < length ws" and "i < length (ids_per_expert cfg (ws ! r) e)"
  shows "concat (map (probs_per_expert cfg (ws ! r)) [0..<length ws]) ! send_pos cfg ws r e i =
         prob_at (ws ! r) (ids_per_expert cfg (ws ! r) e ! i)"
  using send_chunk_nth [OF assms, of "prob_at (ws ! r)"]
  by (simp add: probs_per_expert_def [abs_def])

lemma recv_ids_nth:
  assumes "r < length ws" and "e < length ws" and "i < length (ids_per_expert cfg (ws ! r) e)"
  shows "recv_ids cfg ws e ! recv_pos cfg ws r e i =
         global_id cfg ws r (ids_per_expert cfg (ws ! r) e ! i)"
  unfolding recv_ids_chunks [OF assms(2)]
  by (rule recv_chunk_nth [OF assms, of "global_id cfg ws"])

lemma recv_toks_nth:
  assumes "r < length ws" and "e < length ws" and "i < length (ids_per_expert cfg (ws ! r) e)"
  shows "recv_toks cfg ws e ! recv_pos cfg ws r e i =
         tok_at (ws ! r) (ids_per_expert cfg (ws ! r) e ! i)"
  unfolding recv_toks_chunks [OF assms(2)]
  by (rule recv_chunk_nth [OF assms, of "\<lambda>j. tok_at (ws ! j)"])

subsection \<open>The exchange of the results\<close>

lemma length_recv_count: "length (recv_count cfg ws e) = length ws"
  by (simp add: recv_count_def all_to_all_def)

lemma recv_count_piece_bound:
  assumes "r < length ws" and "e < length ws"
  shows "sum_list (take r (recv_count cfg ws e)) + length (ids_per_expert cfg (ws ! r) e)
         \<le> length (recv_toks cfg ws e)"
proof -
  have "sum_list (take (Suc r) (recv_count cfg ws e)) \<le>
        sum_list (take (length ws) (recv_count cfg ws e))"
    using assms(1) by (intro sum_list_take_mono) simp
  moreover have "recv_count cfg ws e ! r = length (ids_per_expert cfg (ws ! r) e)"
    using assms by (simp add: recv_count_eq)
  ultimately show ?thesis
    using assms by (simp add: sum_list_take_Suc length_recv_count length_recv_toks)
qed

lemma returned_toks_Inr:
  assumes "returned_toks cfg expert ws r = Inr rt"
  shows "\<And>e. e < length ws \<Longrightarrow> \<exists>res. result_toks cfg expert ws e = Inr res"
    and "rt = all_to_all_single
                (map (\<lambda>j. the_result (result_toks cfg expert ws j)) [0..<length ws])
                (map (recv_count cfg ws) [0..<length ws]) r"
proof -
  from assms have all: "\<not> list_ex (\<lambda>j. isl (result_toks cfg expert ws j)) [0..<length ws]"
    and rt: "rt = all_to_all_single
                (map (\<lambda>j. the_result (result_toks cfg expert ws j)) [0..<length ws])
                (map (recv_count cfg ws) [0..<length ws]) r"
    by (auto simp: returned_toks_def split: sum.splits if_splits)
  show "rt = all_to_all_single
                (map (\<lambda>j. the_result (result_toks cfg expert ws j)) [0..<length ws])
                (map (recv_count cfg ws) [0..<length ws]) r" by (rule rt)
  fix e assume "e < length ws"
  with all have "\<not> isl (result_toks cfg expert ws e)" by (auto simp: list_ex_iff)
  then show "\<exists>res. result_toks cfg expert ws e = Inr res"
    by (cases "result_toks cfg expert ws e") auto
qed

lemma returned_chunks:
  assumes "r < length ws" and "returned_toks cfg expert ws r = Inr rt"
  shows "rt = concat (map (\<lambda>e. take (length (ids_per_expert cfg (ws ! r) e))
                               (drop (sum_list (take r (recv_count cfg ws e)))
                                  (the_result (result_toks cfg expert ws e))))
                     [0..<length ws])"
proof -
  have "map (\<lambda>j. split_by (map (recv_count cfg ws) [0..<length ws] ! j)
                   (map (\<lambda>j. the_result (result_toks cfg expert ws j)) [0..<length ws] ! j) ! r)
          [0..<length ws] =
        map (\<lambda>e. take (length (ids_per_expert cfg (ws ! r) e))
                   (drop (sum_list (take r (recv_count cfg ws e)))
                      (the_result (result_toks cfg expert ws e))))
          [0..<length ws]"
  proof (rule map_cong [OF refl])
    fix e assume "e \<in> set [0..<length ws]"
    then have e: "e < length ws" by simp
    have "recv_count cfg ws e ! r = length (ids_per_expert cfg (ws ! r) e)"
      using assms(1) e by (simp add: recv_count_eq)
    then show "split_by (map (recv_count cfg ws) [0..<length ws] ! e)
                 (map (\<lambda>j. the_result (result_toks cfg expert ws j)) [0..<length ws] ! e) ! r =
               take (length (ids_per_expert cfg (ws ! r) e))
                 (drop (sum_list (take r (recv_count cfg ws e)))
                    (the_result (result_toks cfg expert ws e)))"
      using e assms(1) by (simp add: split_by_nth length_recv_count)
  qed
  then show ?thesis
    unfolding returned_toks_Inr(2) [OF assms(2)] all_to_all_single_def
    by (simp only: length_map length_upt diff_zero)
qed

lemma returned_nth:
  assumes "r < length ws" and "e < length ws" and "i < length (ids_per_expert cfg (ws ! r) e)"
    and "returned_toks cfg expert ws r = Inr rt" and "result_toks cfg expert ws e = Inr res"
  shows "rt ! send_pos cfg ws r e i = res ! recv_pos cfg ws r e i"
proof -
  let ?piece = "\<lambda>e. take (length (ids_per_expert cfg (ws ! r) e))
                      (drop (sum_list (take r (recv_count cfg ws e)))
                         (the_result (result_toks cfg expert ws e)))"
  let ?cs = "map ?piece [0..<length ws]"
  have len: "length (?piece e') = length (ids_per_expert cfg (ws ! r) e')" if "e' < length ws" for e'
  proof -
    from returned_toks_Inr(1) [OF assms(4) that]
    obtain res' where res': "result_toks cfg expert ws e' = Inr res'" ..
    have "length res' = length (recv_toks cfg ws e')"
      by (rule length_result_toks [OF that res'])
    with recv_count_piece_bound [OF assms(1) that, of cfg] res' show ?thesis by simp
  qed
  have lens: "map length (take e ?cs) = take e (send_count cfg ws r)"
    using assms(2) len by (simp add: send_count_def take_map)
  have "concat ?cs ! (sum_list (map length (take e ?cs)) + i) = ?cs ! e ! i"
    using assms(2,3) len by (intro concat_nth_offset) simp_all
  then have "rt ! send_pos cfg ws r e i = ?piece e ! i"
    unfolding lens returned_chunks [OF assms(1,4)] send_pos_def using assms(2) by simp
  also have "\<dots> = res ! recv_pos cfg ws r e i"
    using assms(3,5) len [OF assms(2)] by (simp add: recv_pos_def)
  finally show ?thesis .
qed

lemma length_returned:
  assumes "r < length ws" and "returned_toks cfg expert ws r = Inr rt"
  shows "length rt = sum_list (send_count cfg ws r)"
proof -
  have "map (\<lambda>e. length (take (length (ids_per_expert cfg (ws ! r) e))
                      (drop (sum_list (take r (recv_count cfg ws e)))
                         (the_result (result_toks cfg expert ws e))))) [0..<length ws] =
        map (\<lambda>e. length (ids_per_expert cfg (ws ! r) e)) [0..<length ws]"
  proof (rule map_cong [OF refl])
    fix e' assume "e' \<in> set [0..<length ws]"
    then have e': "e' < length ws" by simp
    from returned_toks_Inr(1) [OF assms(2) e']
    obtain res' where res': "result_toks cfg expert ws e' = Inr res'" ..
    have "length res' = length (recv_toks cfg ws e')"
      by (rule length_result_toks [OF e' res'])
    with recv_count_piece_bound [OF assms(1) e', of cfg] res'
    show "length (take (length (ids_per_expert cfg (ws ! r) e'))
                      (drop (sum_list (take r (recv_count cfg ws e')))
                         (the_result (result_toks cfg expert ws e')))) =
          length (ids_per_expert cfg (ws ! r) e')" by simp
  qed
  then show ?thesis
    unfolding returned_chunks [OF assms] send_count_def length_concat map_map comp_def
    by (simp only:)
qed

subsection \<open>The scaled buffer\<close>

lemma length_probs:
  "length (concat (map (probs_per_expert cfg (ws ! r)) [0..<length ws])) =
   sum_list (send_count cfg ws r)"
  by (simp add: length_concat probs_per_expert_def send_count_def comp_def)

lemma scaled_Inr:
  assumes "scaled cfg expert ws r = Inr sc"
  obtains rt where "returned_toks cfg expert ws r = Inr rt"
    and "sc = map (\<lambda>(tok, p). map (\<lambda>v. v * p) tok)
                (zip rt (concat (map (probs_per_expert cfg (ws ! r)) [0..<length ws])))"
  using assms by (auto simp: scaled_def split: sum.splits)

lemma length_scaled:
  assumes "r < length ws" and "scaled cfg expert ws r = Inr sc"
  shows "length sc = sum_list (send_count cfg ws r)"
proof -
  from assms(2) obtain rt where rt: "returned_toks cfg expert ws r = Inr rt"
    and sc: "sc = map (\<lambda>(tok, p). map (\<lambda>v. v * p) tok)
                (zip rt (concat (map (probs_per_expert cfg (ws ! r)) [0..<length ws])))"
    by (rule scaled_Inr)
  show ?thesis
    unfolding sc by (simp add: length_returned [OF assms(1) rt] length_probs)
qed

text \<open>The row of the scaled buffer (line 112) for one selected slot.\<close>

lemma scaled_slot:
  assumes "r < length ws" and "e < length ws" and "i < length (ids_per_expert cfg (ws ! r) e)"
    and "scaled cfg expert ws r = Inr sc"
  shows "sc ! send_pos cfg ws r e i =
     map (\<lambda>v. v * prob_at (ws ! r) (ids_per_expert cfg (ws ! r) e ! i))
       (if kept cfg ws r e i then expert e (tok_at (ws ! r) (ids_per_expert cfg (ws ! r) e ! i))
        else replicate (length (tok_at (ws ! r) (ids_per_expert cfg (ws ! r) e ! i)))
               (padding_val cfg))"
proof -
  from assms(4) obtain rt where rt: "returned_toks cfg expert ws r = Inr rt"
    and sc: "sc = map (\<lambda>(tok, p). map (\<lambda>v. v * p) tok)
                (zip rt (concat (map (probs_per_expert cfg (ws ! r)) [0..<length ws])))"
    by (rule scaled_Inr)
  from returned_toks_Inr(1) [OF rt assms(2)]
  obtain res where res: "result_toks cfg expert ws e = Inr res" ..
  have pos: "send_pos cfg ws r e i < sum_list (send_count cfg ws r)"
    by (rule send_pos_bound [OF assms(2,3)])
  have "sc ! send_pos cfg ws r e i =
        map (\<lambda>v. v * concat (map (probs_per_expert cfg (ws ! r)) [0..<length ws]) ! send_pos cfg ws r e i)
          (rt ! send_pos cfg ws r e i)"
    unfolding sc using pos by (simp add: length_returned [OF assms(1) rt] length_probs)
  also have "concat (map (probs_per_expert cfg (ws ! r)) [0..<length ws]) ! send_pos cfg ws r e i =
        prob_at (ws ! r) (ids_per_expert cfg (ws ! r) e ! i)"
    by (rule probs_nth [OF assms(2,3)])
  also have "rt ! send_pos cfg ws r e i = res ! recv_pos cfg ws r e i"
    by (rule returned_nth [OF assms(1-3) rt res])
  also have "\<dots> =
     (if recv_pos cfg ws r e i \<in> set (recv_tok_offsets cfg ws e)
      then expert e (recv_toks cfg ws e ! recv_pos cfg ws r e i)
      else replicate (length (recv_toks cfg ws e ! recv_pos cfg ws r e i)) (padding_val cfg))"
    by (rule result_toks_nth [OF assms(2) res recv_pos_bound [OF assms(1-3)]])
  finally show ?thesis
    by (simp add: recv_toks_nth [OF assms(1-3)] kept_def)
qed

lemma ids_per_expert_nth:
  assumes "i < length (ids_per_expert cfg w e)" and "ids_per_expert cfg w e ! i = (b, t, s)"
  shows "b < dim_B w" and "t < dim_T w" and "s < moe_k cfg" and "topk_experts w ! b ! t ! s = e"
proof -
  from assms have "(b, t, s) \<in> set (ids_per_expert cfg w e)"
    by (auto simp: in_set_conv_nth)
  then show "b < dim_B w" and "t < dim_T w" and "s < moe_k cfg" and "topk_experts w ! b ! t ! s = e"
    by (auto simp: ids_per_expert_def set_coords)
qed

lemma wf_tok_length:
  assumes "wf_worker cfg E w" and "b < dim_B w" and "t < dim_T w"
  shows "length (x_in w ! b ! t) = dim_C w"
  using assms by (auto simp: wf_worker_def list_all_length dim_B_def)

subsection \<open>Which elements are kept\<close>

lemma sorted_split_at:
  assumes "sorted ys" and "q < length ys"
  shows "\<forall>y \<in> set (take q ys). y \<le> ys ! q" and "\<forall>y \<in> set (drop q ys). ys ! q \<le> (y::nat)"
proof -
  have "sorted (take q ys @ drop q ys)" using assms(1) by simp
  then have cross: "\<forall>a \<in> set (take q ys). \<forall>b \<in> set (drop q ys). a \<le> b"
    and tl: "sorted (drop q ys)"
    unfolding sorted_append by simp_all
  have hd: "drop q ys = ys ! q # drop (Suc q) ys"
    using assms(2) by (simp add: Cons_nth_drop_Suc)
  from cross hd show "\<forall>y \<in> set (take q ys). y \<le> ys ! q" by simp
  from tl hd show "\<forall>y \<in> set (drop q ys). ys ! q \<le> y" by auto
qed

lemma length_filter_split:
  "length (filter P ys) = length (filter P (take q ys)) + length (filter P (drop q ys))"
proof -
  have "filter P ys = filter P (take q ys @ drop q ys)" by simp
  also have "\<dots> = filter P (take q ys) @ filter P (drop q ys)" by (rule filter_append)
  finally show ?thesis by simp
qed

lemma sorted_position:
  fixes ys :: "nat list"
  assumes "sorted ys" and "q < length ys"
  shows "length (filter (\<lambda>y. y < ys ! q) ys) + length (filter (\<lambda>y. y = ys ! q) (take q ys)) = q"
    and "length (filter (\<lambda>y. y = ys ! q) (take q ys)) < count_list ys (ys ! q)"
proof -
  note split = sorted_split_at [OF assms]
  have "filter (\<lambda>y. y < ys ! q) (drop q ys) = []"
    unfolding filter_empty_conv using split(2) by (auto simp: not_less)
  then have less: "length (filter (\<lambda>y. y < ys ! q) ys) = length (filter (\<lambda>y. y < ys ! q) (take q ys))"
    using length_filter_split [of "\<lambda>y. y < ys ! q" ys q] by simp
  have "filter (\<lambda>y. y \<le> ys ! q) (take q ys) = take q ys"
    unfolding filter_id_conv using split(1) by simp
  then have "length (filter (\<lambda>y. y \<le> ys ! q) (take q ys)) = q"
    using assms(2) by simp
  with length_filter_less_eq [of "ys ! q" "take q ys"] less
  show "length (filter (\<lambda>y. y < ys ! q) ys) + length (filter (\<lambda>y. y = ys ! q) (take q ys)) = q"
    by simp
  have "drop q ys = ys ! q # drop (Suc q) ys"
    using assms(2) by (simp add: Cons_nth_drop_Suc)
  then have "0 < length (filter (\<lambda>y. y = ys ! q) (drop q ys))" by simp
  with length_filter_split [of "\<lambda>y. y = ys ! q" ys q]
  show "length (filter (\<lambda>y. y = ys ! q) (take q ys)) < count_list ys (ys ! q)"
    by (simp add: count_list_filter)
qed

lemma recv_row_offsets_mono:
  "i \<le> j \<Longrightarrow> j \<le> length (uniq_rows cfg ws r) \<Longrightarrow>
   recv_row_offsets cfg ws r ! i \<le> recv_row_offsets cfg ws r ! j"
  by (simp add: recv_row_offsets_nth sum_list_take_mono)

lemma recv_tok_offsets_member:
  "q \<in> set (recv_tok_offsets cfg ws r) \<longleftrightarrow>
     (\<exists>i < length (uniq_rows cfg ws r).
        recv_row_offsets cfg ws r ! i \<le> q \<and>
        q < recv_row_offsets cfg ws r ! i + batch_row_len cfg ws r ! i)"
  by (auto simp: recv_tok_offsets_def)

text \<open>Within the range of its own row, a position is kept when it lies below the capacity.\<close>

lemma kept_in_row:
  assumes "i < length (uniq_rows cfg ws r)" and "j < recv_row_lens cfg ws r ! i"
  shows "recv_row_offsets cfg ws r ! i + j \<in> set (recv_tok_offsets cfg ws r) \<longleftrightarrow>
         int j < capacity cfg ws r"
proof
  assume "int j < capacity cfg ws r"
  with assms have "j < batch_row_len cfg ws r ! i" by (simp add: batch_row_len_nth)
  with assms(1) show "recv_row_offsets cfg ws r ! i + j \<in> set (recv_tok_offsets cfg ws r)"
    unfolding recv_tok_offsets_member by (intro exI [of _ i]) simp
next
  assume "recv_row_offsets cfg ws r ! i + j \<in> set (recv_tok_offsets cfg ws r)"
  then obtain i' where i': "i' < length (uniq_rows cfg ws r)"
    and lo: "recv_row_offsets cfg ws r ! i' \<le> recv_row_offsets cfg ws r ! i + j"
    and hi: "recv_row_offsets cfg ws r ! i + j < recv_row_offsets cfg ws r ! i' + batch_row_len cfg ws r ! i'"
    unfolding recv_tok_offsets_member by blast
  from hi batch_row_len_le [OF i'] recv_row_offsets_Suc [OF i']
  have hi': "recv_row_offsets cfg ws r ! i + j < recv_row_offsets cfg ws r ! Suc i'" by simp
  have "i' = i"
  proof (rule ccontr)
    assume "i' \<noteq> i"
    then consider "Suc i' \<le> i" | "Suc i \<le> i'" by linarith
    then show False
    proof cases
      case 1
      with assms(1) have "recv_row_offsets cfg ws r ! Suc i' \<le> recv_row_offsets cfg ws r ! i"
        by (intro recv_row_offsets_mono) simp_all
      with hi' show False by simp
    next
      case 2
      with i' have "recv_row_offsets cfg ws r ! Suc i \<le> recv_row_offsets cfg ws r ! i'"
        by (intro recv_row_offsets_mono) simp_all
      with lo assms recv_row_offsets_Suc [OF assms(1)] show False by simp
    qed
  qed
  with hi have "j < batch_row_len cfg ws r ! i" by simp
  with assms(1) show "int j < capacity cfg ws r" by (simp add: batch_row_len_nth)
qed

text \<open>
  A received element is kept when fewer than \<open>capacity\<close> elements with its row id arrived
  before it.
\<close>

lemma kept_iff_rank:
  assumes "uniform_batches cfg ws" and "r < length ws" and "q < length (recv_ids cfg ws r)"
  shows "q \<in> set (recv_tok_offsets cfg ws r) \<longleftrightarrow>
         int (length (filter (\<lambda>y. y = fst (recv_ids cfg ws r ! q))
                        (take q (map fst (recv_ids cfg ws r))))) < capacity cfg ws r"
proof -
  let ?ys = "map fst (recv_ids cfg ws r)"
  let ?v = "fst (recv_ids cfg ws r ! q)"
  let ?rank = "length (filter (\<lambda>y. y = ?v) (take q ?ys))"
  have sorted: "sorted ?ys" by (rule sorted_recv_ids [OF assms(1,2)])
  have q: "q < length ?ys" and v: "?ys ! q = ?v" using assms(3) by simp_all
  from q have "?ys ! q \<in> set ?ys" by (rule nth_mem)
  then have "?ys ! q \<in> set (uniq_rows cfg ws r)"
    unfolding uniq_rows_eq by simp
  then obtain i where i: "i < length (uniq_rows cfg ws r)" and ui: "uniq_rows cfg ws r ! i = ?v"
    unfolding v by (auto simp: in_set_conv_nth)
  have off: "recv_row_offsets cfg ws r ! i = length (filter (\<lambda>y. y < ?v) ?ys)"
    unfolding recv_row_offsets_less [OF i] ui ..
  have len: "recv_row_lens cfg ws r ! i = count_list ?ys ?v"
    using i ui by (simp add: recv_row_lens_eq uniq_rows_eq)
  from sorted_position [OF sorted q]
  have pos: "recv_row_offsets cfg ws r ! i + ?rank = q" and rank: "?rank < recv_row_lens cfg ws r ! i"
    unfolding v off len by simp_all
  from kept_in_row [OF i rank] pos show ?thesis by simp
qed

lemma take_concat_offset:
  "e < length cs \<Longrightarrow> i \<le> length (cs ! e) \<Longrightarrow>
   take (sum_list (map length (take e cs)) + i) (concat cs) = concat (take e cs) @ take i (cs ! e)"
proof (induction cs arbitrary: e)
  case Nil
  then show ?case by simp
next
  case (Cons c cs)
  show ?case
  proof (cases e)
    case 0
    with Cons.prems show ?thesis by simp
  next
    case (Suc e')
    with Cons.prems have "e' < length cs" "i \<le> length (cs ! e')" by simp_all
    from Cons.IH [OF this] Suc show ?thesis by (simp add: add.assoc)
  qed
qed

lemma length_filter_map:
  "length (filter P (map f xs)) = length (filter (\<lambda>x. P (f x)) xs)"
  by (induction xs) auto

lemma filter_below_empty:
  "\<forall>c \<in> set xs. f c < (v::nat) \<Longrightarrow> filter (\<lambda>c. f c = v) xs = []"
  by (induction xs) auto

text \<open>
  A slot is kept when fewer than \<open>capacity\<close> earlier slots of the same row of the same
  batch were routed to the same expert.
\<close>

lemma kept_iff_sender_rank:
  assumes "uniform_batches cfg ws" and "r < length ws" and "e < length ws"
    and "i < length (ids_per_expert cfg (ws ! r) e)"
  shows "kept cfg ws r e i \<longleftrightarrow>
         int (length (filter (\<lambda>c. fst c = fst (ids_per_expert cfg (ws ! r) e ! i))
                        (take i (ids_per_expert cfg (ws ! r) e)))) < capacity cfg ws e"
proof -
  let ?ids = "ids_per_expert cfg (ws ! r) e"
  let ?cs = "map (\<lambda>j. map (global_id cfg ws j) (ids_per_expert cfg (ws ! j) e)) [0..<length ws]"
  let ?q = "recv_pos cfg ws r e i"
  let ?v = "fst (global_id cfg ws r (?ids ! i))"
  have q: "?q < length (recv_ids cfg ws e)"
    using recv_pos_bound [OF assms(2-4)] by (simp add: length_ids_toks [OF assms(3)])
  have at: "recv_ids cfg ws e ! ?q = global_id cfg ws r (?ids ! i)"
    by (rule recv_ids_nth [OF assms(2-4)])
  have pos: "?q = sum_list (map length (take r ?cs)) + i"
    using assms(3) by (simp add: recv_pos_def recv_count_eq take_map comp_def)
  have "take ?q (recv_ids cfg ws e) = concat (take r ?cs) @ take i (?cs ! r)"
    unfolding recv_ids_chunks [OF assms(3)] pos
    using assms(2,4) by (intro take_concat_offset) simp_all
  then have split: "take ?q (recv_ids cfg ws e) =
      concat (take r ?cs) @ map (global_id cfg ws r) (take i ?ids)"
    using assms(2) by (simp add: take_map)
  have "\<forall>c \<in> set (concat (take r ?cs)). fst c < ?v"
  proof
    fix c assume "c \<in> set (concat (take r ?cs))"
    then obtain j c' where j: "j < r" and c': "c' \<in> set (ids_per_expert cfg (ws ! j) e)"
      and c: "c = global_id cfg ws j c'"
      using assms(2) by (auto simp: take_map)
    from assms(4) have "?ids ! i \<in> set ?ids" by (rule nth_mem)
    from chunk_ids_increase [OF assms(1) j assms(2) c' this] show "fst c < ?v"
      unfolding c .
  qed
  then have before: "filter (\<lambda>c. fst c = ?v) (concat (take r ?cs)) = []"
    by (rule filter_below_empty)
  have "length (filter (\<lambda>y. y = ?v) (take ?q (map fst (recv_ids cfg ws e)))) =
        length (filter (\<lambda>c. fst c = ?v) (take ?q (recv_ids cfg ws e)))"
    unfolding take_map by (rule length_filter_map)
  also have "\<dots> = length (filter (\<lambda>c. fst c = ?v) (map (global_id cfg ws r) (take i ?ids)))"
    unfolding split filter_append before by simp
  also have "\<dots> = length (filter (\<lambda>c. fst (global_id cfg ws r c) = ?v) (take i ?ids))"
    by (rule length_filter_map)
  also have "\<dots> = length (filter (\<lambda>c. fst c = fst (?ids ! i)) (take i ?ids))"
    by (simp add: fst_global_id)
  finally show ?thesis
    unfolding kept_def kept_iff_rank [OF assms(1,3) q] at by simp
qed

lemma wf_input_worker:
  "wf_input cfg ws \<Longrightarrow> r < length ws \<Longrightarrow> wf_worker cfg (length ws) (ws ! r)"
  by (simp add: wf_input_def list_all_length)

lemma wf_input_uniform: "wf_input cfg ws \<Longrightarrow> uniform_batches cfg ws"
  by (simp add: wf_input_def)

subsection \<open>Completion of a pass\<close>

lemma uniq_rows_nonempty:
  assumes "r < length ws" and "0 < sum_list (recv_count cfg ws r)"
  shows "uniq_rows cfg ws r \<noteq> []"
proof -
  from assms have "recv_ids cfg ws r \<noteq> []"
    by (auto simp: length_recv_ids [symmetric])
  then have "set (remdups (sort (map fst (recv_ids cfg ws r)))) \<noteq> {}" by simp
  then show ?thesis unfolding uniq_rows_eq by (simp del: set_remdups set_sort)
qed

lemma capacity_nonneg: "0 \<le> capacity_factor cfg \<Longrightarrow> 0 \<le> capacity cfg ws r"
proof -
  assume "0 \<le> capacity_factor cfg"
  then have "0 \<le> round_double (real (dim_T (ws ! r)) / real (length ws)) * capacity_factor cfg"
    by (intro mult_nonneg_nonneg round_double_nonneg) simp_all
  then show ?thesis
    by (simp add: capacity_def capacity_of_def py_int_def round_double_nonneg)
qed

lemma result_toks_ok:
  assumes "r < length ws" and "0 < sum_list (recv_count cfg ws r)" and "0 \<le> capacity_factor cfg"
  shows "\<exists>res. result_toks cfg expert ws r = Inr res"
proof -
  from uniq_rows_nonempty [OF assms(1,2)] capacity_nonneg [OF assms(3), of ws r]
  have "\<exists>bt. batch_toks cfg ws r = Inr bt"
    by (simp add: batch_toks_def)
  then show ?thesis
    by (auto simp: result_toks_def expert_out_def)
qed

lemma scaled_ok:
  assumes "r < length ws"
    and "list_all (\<lambda>e. 0 < sum_list (recv_count cfg ws e)) [0..<length ws]"
    and "0 \<le> capacity_factor cfg"
  shows "\<exists>sc. scaled cfg expert ws r = Inr sc"
proof -
  have all: "\<exists>res. result_toks cfg expert ws e = Inr res" if "e < length ws" for e
    using that assms(2,3) by (intro result_toks_ok) (simp_all add: list_all_iff)
  then have "\<not> isl (result_toks cfg expert ws e)" if "e < length ws" for e
    using that by fastforce
  then have "\<not> list_ex (\<lambda>j. isl (result_toks cfg expert ws j)) [0..<length ws]"
    by (simp add: list_ex_iff)
  moreover from all [OF assms(1)] obtain own where "result_toks cfg expert ws r = Inr own" ..
  ultimately have "\<exists>rt. returned_toks cfg expert ws r = Inr rt"
    by (simp add: returned_toks_def)
  then show ?thesis by (auto simp: scaled_def)
qed

subsection \<open>The widths of the rows\<close>

lemma recv_toks_width:
  assumes "wf_input cfg ws" and "e < length ws" and "tok \<in> set (recv_toks cfg ws e)"
  shows "length tok = dim_C (hd ws)"
proof -
  from assms(3) obtain j c where j: "j < length ws"
    and c: "c \<in> set (ids_per_expert cfg (ws ! j) e)" and tok: "tok = tok_at (ws ! j) c"
    unfolding recv_toks_chunks [OF assms(2)] by auto
  obtain b t s where bts: "c = (b, t, s)" by (cases c) auto
  from c bts have "b < dim_B (ws ! j)" "t < dim_T (ws ! j)"
    by (auto simp: ids_per_expert_def set_coords)
  from wf_tok_length [OF wf_input_worker [OF assms(1) j] this]
  have "length tok = dim_C (ws ! j)" by (simp add: tok bts tok_at_def)
  moreover from assms(1) j have "dim_C (ws ! j) = dim_C (hd ws)"
    by (simp add: wf_input_def list_all_length)
  ultimately show ?thesis by simp
qed

lemma result_toks_width:
  assumes "wf_input cfg ws" and "e < length ws" and "result_toks cfg expert ws e = Inr res"
    and "\<And>e tok. length (expert e tok) = length tok" and "row \<in> set res"
  shows "length row = dim_C (hd ws)"
proof -
  from assms(5) obtain q where q: "q < length res" and row: "row = res ! q"
    by (auto simp: in_set_conv_nth)
  from q have q': "q < length (recv_toks cfg ws e)"
    by (simp add: length_result_toks [OF assms(2,3)])
  then have "length (recv_toks cfg ws e ! q) = dim_C (hd ws)"
    by (intro recv_toks_width [OF assms(1,2)]) simp
  with result_toks_nth [OF assms(2,3) q'] assms(4) show ?thesis
    by (simp add: row)
qed

lemma returned_toks_width:
  assumes "wf_input cfg ws" and "r < length ws" and "returned_toks cfg expert ws r = Inr rt"
    and "\<And>e tok. length (expert e tok) = length tok" and "row \<in> set rt"
  shows "length row = dim_C (hd ws)"
proof -
  from assms(5) obtain e where e: "e < length ws"
    and row: "row \<in> set (take (length (ids_per_expert cfg (ws ! r) e))
                       (drop (sum_list (take r (recv_count cfg ws e)))
                          (the_result (result_toks cfg expert ws e))))"
    unfolding returned_chunks [OF assms(2,3)] by auto
  from returned_toks_Inr(1) [OF assms(3) e]
  obtain res where res: "result_toks cfg expert ws e = Inr res" ..
  from row res have "row \<in> set res"
    by (auto dest!: in_set_takeD in_set_dropD)
  then show ?thesis by (rule result_toks_width [OF assms(1) e res assms(4)])
qed

lemma scaled_width:
  assumes "wf_input cfg ws" and "r < length ws" and "scaled cfg expert ws r = Inr sc"
    and "\<And>e tok. length (expert e tok) = length tok" and "row \<in> set sc"
  shows "length row = dim_C (hd ws)"
proof -
  from assms(3) obtain rt where rt: "returned_toks cfg expert ws r = Inr rt"
    and sc: "sc = map (\<lambda>(tok, p). map (\<lambda>v. v * p) tok)
                (zip rt (concat (map (probs_per_expert cfg (ws ! r)) [0..<length ws])))"
    by (rule scaled_Inr)
  from assms(5) obtain tok p where "tok \<in> set rt" and "row = map (\<lambda>v. v * p) tok"
    unfolding sc by (auto dest: set_zip_leftD)
  with returned_toks_width [OF assms(1,2) rt assms(4)] show ?thesis by simp
qed

subsection \<open>The number of rows\<close>

lemma length_coords: "length (coords B T K) = B * T * K"
  by (simp add: coords_def length_concat comp_def sum_list_triv)

lemma sum_list_indicator:
  "a < E \<Longrightarrow> sum_list (map (\<lambda>e. if a = e then 1 else 0) [0..<E]) = (1::nat)"
  by (induction E) auto

lemma partition_lengths:
  "\<forall>c \<in> set cs. f c < E \<Longrightarrow>
   sum_list (map (\<lambda>e. length (filter (\<lambda>c. f c = e) cs)) [0..<E]) = length cs"
proof (induction cs)
  case Nil
  show ?case by (simp add: sum_list_triv)
next
  case (Cons c cs)
  have "sum_list (map (\<lambda>e. length (filter (\<lambda>c. f c = e) (c # cs))) [0..<E]) =
        sum_list (map (\<lambda>e. (if f c = e then 1 else 0) + length (filter (\<lambda>c. f c = e) cs)) [0..<E])"
    by (intro arg_cong [of _ _ sum_list] map_cong refl) simp
  also have "\<dots> = sum_list (map (\<lambda>e. if f c = e then 1 else 0) [0..<E]) +
                  sum_list (map (\<lambda>e. length (filter (\<lambda>c. f c = e) cs)) [0..<E])"
    by (rule sum_list_addf)
  also have "\<dots> = 1 + length cs"
    using Cons by (simp add: sum_list_indicator)
  finally show ?case by simp
qed

lemma wf_expert_in_range:
  assumes "wf_worker cfg E w" and "c \<in> set (coords (dim_B w) (dim_T w) (moe_k cfg))"
  shows "(case c of (b, t, s) \<Rightarrow> topk_experts w ! b ! t ! s) < E"
proof -
  obtain b t s where c: "c = (b, t, s)" by (cases c) auto
  with assms(2) have "b < dim_B w" "t < dim_T w" "s < moe_k cfg"
    by (simp_all add: set_coords)
  with assms(1) show ?thesis
    by (simp add: c wf_worker_def list_all_length)
qed

lemma sum_send_count:
  assumes "wf_input cfg ws" and "r < length ws"
  shows "sum_list (send_count cfg ws r) = dim_B (ws ! r) * dim_T (ws ! r) * moe_k cfg"
proof -
  let ?cs = "coords (dim_B (ws ! r)) (dim_T (ws ! r)) (moe_k cfg)"
  let ?f = "\<lambda>c. case c of (b, t, s) \<Rightarrow> topk_experts (ws ! r) ! b ! t ! s"
  have "\<forall>c \<in> set ?cs. ?f c < length ws"
    using wf_expert_in_range [OF wf_input_worker [OF assms]] by blast
  from partition_lengths [of ?cs ?f, OF this] show ?thesis
    by (simp add: send_count_def ids_per_expert_def length_coords case_prod_unfold)
qed

lemma length_filter_eq_upt:
  "length (filter (\<lambda>s'. s' = s) [0..<K]) = (if s < K then 1 else 0)"
  by (induction K) auto

lemma length_filter_slot_coords:
  "s < K \<Longrightarrow> length (filter (\<lambda>c. snd (snd c) = s) (coords B T K)) = B * T"
  by (simp add: coords_def filter_concat filter_map length_concat comp_def length_filter_eq_upt
      sum_list_triv)

lemma snd_global_id: "snd (global_id cfg ws r c) = snd c"
  by (cases c) (simp add: global_id_def)

lemma length_filter_slot_send_ids:
  assumes "wf_input cfg ws" and "r < length ws" and "s < moe_k cfg"
  shows "length (filter (\<lambda>c. snd (snd c) = s) (send_ids cfg ws r)) = dim_B (ws ! r) * dim_T (ws ! r)"
proof -
  let ?cs = "filter (\<lambda>c. snd (snd c) = s) (coords (dim_B (ws ! r)) (dim_T (ws ! r)) (moe_k cfg))"
  let ?f = "\<lambda>c. case c of (b, t, s) \<Rightarrow> topk_experts (ws ! r) ! b ! t ! s"
  have "\<forall>c \<in> set ?cs. ?f c < length ws"
    using wf_expert_in_range [OF wf_input_worker [OF assms(1,2)]] by auto
  from partition_lengths [of ?cs ?f, OF this]
  have "sum_list (map (\<lambda>e. length (filter (\<lambda>c. ?f c = e) ?cs)) [0..<length ws]) =
        dim_B (ws ! r) * dim_T (ws ! r)"
    using assms(3) by (simp add: length_filter_slot_coords)
  moreover have "filter (\<lambda>c. snd (snd c) = s) (send_ids cfg ws r) =
        map (global_id cfg ws r)
          (concat (map (\<lambda>e. filter (\<lambda>c. snd (snd c) = s) (ids_per_expert cfg (ws ! r) e))
                     [0..<length ws]))"
    by (simp add: send_ids_def filter_map comp_def snd_global_id filter_concat)
  moreover have "filter (\<lambda>c. snd (snd c) = s) (ids_per_expert cfg (ws ! r) e) =
                 filter (\<lambda>c. ?f c = e) ?cs" for e
    by (auto simp: ids_per_expert_def case_prod_unfold intro: filter_cong)
  ultimately show ?thesis
    by (simp add: length_concat comp_def)
qed

lemma length_slot_rows:
  assumes "length ids = length rows"
  shows "length (slot_rows ids rows s) = length (filter (\<lambda>c. snd (snd c) = s) ids)"
  using length_filter_zip_fst [OF assms, of "\<lambda>c. snd (snd c) = s"]
  by (simp add: slot_rows_def case_prod_unfold)

lemma set_slot_rows: "set (slot_rows ids rows s) \<subseteq> set rows"
  by (auto simp: slot_rows_def dest: set_zip_rightD)

lemma length_send_ids: "length (send_ids cfg ws r) = sum_list (send_count cfg ws r)"
  by (simp add: send_ids_def send_count_def length_concat comp_def)

subsection \<open>The shape of the returned batch\<close>

lemma length_add_rows: "length (add_rows a b) = min (length a) (length b)"
  by (simp add: add_rows_def)

lemma add_tensors_shape:
  assumes "length acc = n" and "\<forall>row \<in> set acc. length row = C"
    and "length t = n" and "\<forall>row \<in> set t. length row = C"
  shows "length (add_tensors acc t) = n" and "\<forall>row \<in> set (add_tensors acc t). length row = C"
proof -
  show "length (add_tensors acc t) = n"
    using assms(1,3) by (simp add: add_tensors_def)
  show "\<forall>row \<in> set (add_tensors acc t). length row = C"
  proof
    fix row assume "row \<in> set (add_tensors acc t)"
    then obtain a b where ab: "(a, b) \<in> set (zip acc t)" and row: "row = add_rows a b"
      unfolding add_tensors_def by auto
    from ab have "a \<in> set acc" "b \<in> set t"
      by (auto dest: set_zip_leftD set_zip_rightD)
    with assms(2,4) show "length row = C"
      by (simp add: row length_add_rows)
  qed
qed

lemma fold_add_shape:
  assumes "length acc = n" and "\<forall>row \<in> set acc. length row = C"
    and "\<forall>t \<in> set ts. length t = n \<and> (\<forall>row \<in> set t. length row = C)"
  shows "length (fold (\<lambda>t acc. add_tensors acc t) ts acc) = n
       \<and> (\<forall>row \<in> set (fold (\<lambda>t acc. add_tensors acc t) ts acc). length row = C)"
  using assms
proof (induction ts arbitrary: acc)
  case Nil
  then show ?case by simp
next
  case (Cons t ts)
  from Cons.prems(3) have t: "length t = n" "\<forall>row \<in> set t. length row = C"
    and rest: "\<forall>t \<in> set ts. length t = n \<and> (\<forall>row \<in> set t. length row = C)"
    by simp_all
  from Cons.IH [OF add_tensors_shape [OF Cons.prems(1,2) t] rest]
  show ?case by simp
qed

lemma sum_dim0_shape:
  assumes "ts \<noteq> []" and "\<forall>t \<in> set ts. length t = n \<and> (\<forall>row \<in> set t. length row = C)"
  shows "length (sum_dim0 ts) = n" and "\<forall>row \<in> set (sum_dim0 ts). length row = C"
proof -
  from assms(1) obtain t rest where ts: "ts = t # rest" by (cases ts) auto
  with assms(2) have "length t = n" "\<forall>row \<in> set t. length row = C"
    "\<forall>t \<in> set rest. length t = n \<and> (\<forall>row \<in> set t. length row = C)" by simp_all
  from fold_add_shape [OF this]
  show "length (sum_dim0 ts) = n" and "\<forall>row \<in> set (sum_dim0 ts). length row = C"
    by (simp_all add: sum_dim0_def ts)
qed

lemma view3_shape:
  assumes "length rows = B * T" and "\<forall>row \<in> set rows. length row = C"
  shows "\<exists>out. view3 B T rows = Inr out \<and> has_shape B T C out"
proof -
  have "length (take T (drop (b * T) rows)) = T" if "b < B" for b
  proof -
    from that have "Suc b * T \<le> B * T" by (intro mult_le_mono1) simp
    with assms(1) show ?thesis by simp
  qed
  moreover have "\<forall>tok \<in> set (take T (drop (b * T) rows)). length tok = C" for b
    using assms(2) by (auto dest!: in_set_takeD in_set_dropD)
  ultimately show ?thesis
    using assms(1) by (simp add: view3_def has_shape_def list_all_iff)
qed

lemma combine_shape:
  assumes "wf_input cfg ws" and "r < length ws" and "1 \<le> moe_k cfg"
    and "length sc = dim_B (ws ! r) * dim_T (ws ! r) * moe_k cfg"
    and "\<forall>row \<in> set sc. length row = C"
  shows "\<exists>out. combine cfg ws r sc = Inr out \<and> has_shape (dim_B (ws ! r)) (dim_T (ws ! r)) C out"
proof (cases "1 < moe_k cfg")
  case False
  with assms(3) have "moe_k cfg = 1" by simp
  with assms(4,5) False view3_shape [of sc "dim_B (ws ! r)" "dim_T (ws ! r)" C]
  show ?thesis by (simp add: combine_def)
next
  case True
  let ?ts = "map (slot_rows (send_ids cfg ws r) sc) [0..<moe_k cfg]"
  have len: "length (send_ids cfg ws r) = length sc"
    using assms(4) by (simp add: length_send_ids sum_send_count [OF assms(1,2)])
  have parts: "\<forall>t \<in> set ?ts. length t = dim_B (ws ! r) * dim_T (ws ! r) \<and>
                 (\<forall>row \<in> set t. length row = C)"
  proof
    fix t assume "t \<in> set ?ts"
    then obtain s where s: "s < moe_k cfg" and t: "t = slot_rows (send_ids cfg ws r) sc s" by auto
    have "length t = dim_B (ws ! r) * dim_T (ws ! r)"
      unfolding t length_slot_rows [OF len]
      by (rule length_filter_slot_send_ids [OF assms(1,2) s])
    moreover have "\<forall>row \<in> set t. length row = C"
      using set_slot_rows [of "send_ids cfg ws r" sc s] assms(5) unfolding t by blast
    ultimately show "length t = dim_B (ws ! r) * dim_T (ws ! r) \<and> (\<forall>row \<in> set t. length row = C)" ..
  qed
  from True have ne: "?ts \<noteq> []" by simp
  then obtain t rest where ts: "?ts = t # rest" by (cases ?ts) auto
  with parts have "list_all (\<lambda>u. length u = length t) rest"
    by (simp add: list_all_iff)
  then have stack: "stack ?ts = Inr ?ts"
    unfolding ts by (simp add: stack_def)
  from view3_shape [OF sum_dim0_shape [OF ne parts]]
  obtain out where "view3 (dim_B (ws ! r)) (dim_T (ws ! r)) (sum_dim0 ?ts) = Inr out"
    and "has_shape (dim_B (ws ! r)) (dim_T (ws ! r)) C out" by blast
  with True stack show ?thesis by (simp add: combine_def)
qed

subsection \<open>The rows of the returned batch\<close>

lemma add_tensors_nth:
  assumes "n < length acc" and "n < length t" and "j < length (acc ! n)" and "j < length (t ! n)"
  shows "add_tensors acc t ! n ! j = acc ! n ! j + t ! n ! j"
  using assms by (simp add: add_tensors_def add_rows_def)

lemma fold_add_nth:
  assumes "length acc = m" and "\<forall>row \<in> set acc. length row = C"
    and "\<forall>t \<in> set ts. length t = m \<and> (\<forall>row \<in> set t. length row = C)"
    and "n < m" and "j < C"
  shows "fold (\<lambda>t acc. add_tensors acc t) ts acc ! n ! j =
         acc ! n ! j + sum_list (map (\<lambda>t. t ! n ! j) ts)"
  using assms(1-3)
proof (induction ts arbitrary: acc)
  case Nil
  show ?case by simp
next
  case (Cons t ts)
  from Cons.prems(3) have t: "length t = m" "\<forall>row \<in> set t. length row = C"
    and rest: "\<forall>t \<in> set ts. length t = m \<and> (\<forall>row \<in> set t. length row = C)"
    by simp_all
  have "add_tensors acc t ! n ! j = acc ! n ! j + t ! n ! j"
    using Cons.prems(1,2) t assms(4,5) by (intro add_tensors_nth) simp_all
  with Cons.IH [OF add_tensors_shape [OF Cons.prems(1,2) t] rest]
  show ?case by (simp add: add.assoc)
qed

lemma sum_dim0_nth:
  assumes "ts \<noteq> []" and "\<forall>t \<in> set ts. length t = m \<and> (\<forall>row \<in> set t. length row = C)"
    and "n < m" and "j < C"
  shows "sum_dim0 ts ! n ! j = sum_list (map (\<lambda>t. t ! n ! j) ts)"
proof -
  from assms(1) obtain t rest where ts: "ts = t # rest" by (cases ts) auto
  with assms(2) have "length t = m" "\<forall>row \<in> set t. length row = C"
    "\<forall>t \<in> set rest. length t = m \<and> (\<forall>row \<in> set t. length row = C)" by simp_all
  from fold_add_nth [OF this assms(3,4)] show ?thesis
    by (simp add: sum_dim0_def ts)
qed

lemma view3_concat:
  assumes "view3 B T rows = Inr out"
  shows "concat out = rows"
proof -
  have "concat (map (\<lambda>b. take T (drop (b * T) rows)) [0..<B]) = take (B * T) rows" for B
  proof (induction B)
    case 0
    show ?case by simp
  next
    case (Suc B)
    have "concat (map (\<lambda>b. take T (drop (b * T) rows)) [0..<Suc B]) =
          concat (map (\<lambda>b. take T (drop (b * T) rows)) [0..<B]) @ take T (drop (B * T) rows)"
      by simp
    also have "\<dots> = take (B * T) rows @ take T (drop (B * T) rows)"
      by (simp only: Suc)
    also have "\<dots> = take (B * T + T) rows"
      by (rule take_add [symmetric])
    also have "B * T + T = Suc B * T" by simp
    finally show ?case .
  qed
  with assms show ?thesis
    by (auto simp: view3_def split: if_splits)
qed

lemma filter_nth_position:
  assumes "p < length xs" and "P (xs ! p)"
  shows "length (filter P (take p xs)) < length (filter P xs)"
    and "filter P xs ! length (filter P (take p xs)) = xs ! p"
proof -
  have "xs = take p xs @ xs ! p # drop (Suc p) xs"
    using assms(1) by (simp add: id_take_nth_drop [symmetric])
  then have "filter P xs = filter P (take p xs @ xs ! p # drop (Suc p) xs)"
    by simp
  then have parts: "filter P xs = filter P (take p xs) @ xs ! p # filter P (drop (Suc p) xs)"
    using assms(2) by simp
  show "length (filter P (take p xs)) < length (filter P xs)"
    by (simp add: parts)
  show "filter P xs ! length (filter P (take p xs)) = xs ! p"
    by (simp add: parts)
qed

lemma slot_rows_position:
  assumes "length ids = length rows" and "p < length ids" and "snd (snd (ids ! p)) = s"
  shows "length (filter (\<lambda>c. snd (snd c) = s) (take p ids)) < length (slot_rows ids rows s)"
    and "slot_rows ids rows s ! length (filter (\<lambda>c. snd (snd c) = s) (take p ids)) = rows ! p"
proof -
  let ?P = "\<lambda>(c, row). snd (snd c) = s"
  have p: "p < length (zip ids rows)" using assms(1,2) by simp
  have at: "?P (zip ids rows ! p)" using assms by simp
  have n: "length (filter ?P (take p (zip ids rows))) =
           length (filter (\<lambda>c. snd (snd c) = s) (take p ids))"
    using length_filter_zip_fst [of "take p ids" "take p rows" "\<lambda>c. snd (snd c) = s"] assms(1)
    by (simp add: take_zip case_prod_unfold)
  note pos = filter_nth_position [of p "zip ids rows" ?P, OF p at]
  from pos(1) show "length (filter (\<lambda>c. snd (snd c) = s) (take p ids)) < length (slot_rows ids rows s)"
    unfolding n by (simp add: slot_rows_def)
  from pos show "slot_rows ids rows s ! length (filter (\<lambda>c. snd (snd c) = s) (take p ids)) = rows ! p"
    unfolding n using assms(1,2) by (simp add: slot_rows_def)
qed

lemma send_ids_nth:
  assumes "e < length ws" and "i < length (ids_per_expert cfg (ws ! r) e)"
  shows "send_ids cfg ws r ! send_pos cfg ws r e i =
         global_id cfg ws r (ids_per_expert cfg (ws ! r) e ! i)"
  unfolding send_ids_chunks by (rule send_chunk_nth [OF assms])

lemma slot_parts_shape:
  assumes "wf_input cfg ws" and "r < length ws"
    and "length sc = dim_B (ws ! r) * dim_T (ws ! r) * moe_k cfg"
    and "\<forall>row \<in> set sc. length row = C"
  shows "\<forall>t \<in> set (map (slot_rows (send_ids cfg ws r) sc) [0..<moe_k cfg]).
           length t = dim_B (ws ! r) * dim_T (ws ! r) \<and> (\<forall>row \<in> set t. length row = C)"
proof
  fix t assume "t \<in> set (map (slot_rows (send_ids cfg ws r) sc) [0..<moe_k cfg])"
  then obtain s where s: "s < moe_k cfg" and t: "t = slot_rows (send_ids cfg ws r) sc s" by auto
  have len: "length (send_ids cfg ws r) = length sc"
    using assms(3) by (simp add: length_send_ids sum_send_count [OF assms(1,2)])
  have "length t = dim_B (ws ! r) * dim_T (ws ! r)"
    unfolding t length_slot_rows [OF len]
    by (rule length_filter_slot_send_ids [OF assms(1,2) s])
  moreover have "\<forall>row \<in> set t. length row = C"
    using set_slot_rows [of "send_ids cfg ws r" sc s] assms(4) unfolding t by blast
  ultimately show "length t = dim_B (ws ! r) * dim_T (ws ! r) \<and> (\<forall>row \<in> set t. length row = C)" ..
qed

lemma slot_rows_all:
  assumes "length ids = length rows" and "\<forall>c \<in> set ids. snd (snd c) = s"
  shows "slot_rows ids rows s = rows"
proof -
  have "filter (\<lambda>(c, row). snd (snd c) = s) (zip ids rows) = zip ids rows"
    unfolding filter_id_conv using assms(2) by (auto dest: set_zip_leftD)
  with assms(1) show ?thesis by (simp add: slot_rows_def)
qed

lemma send_ids_slot:
  "c \<in> set (send_ids cfg ws r) \<Longrightarrow> snd (snd c) < moe_k cfg"
  by (auto simp: send_ids_def ids_per_expert_def set_coords global_id_def)

text \<open>
  Every entry of the returned batch is the sum, over the \<open>k\<close> slots, of the entries of the
  rows that stand at the same place among the rows of their slot in the send order.
\<close>

lemma forward_rows:
  assumes "wf_input cfg ws" and "r < length ws" and "1 \<le> moe_k cfg"
    and "scaled cfg expert ws r = Inr sc" and "forward cfg expert ws r = Inr out"
    and "\<And>e tok. length (expert e tok) = length tok"
    and "n < dim_B (ws ! r) * dim_T (ws ! r)" and "j < dim_C (ws ! r)"
  shows "concat out ! n ! j = (\<Sum>s < moe_k cfg. slot_rows (send_ids cfg ws r) sc s ! n ! j)"
proof -
  let ?ts = "map (slot_rows (send_ids cfg ws r) sc) [0..<moe_k cfg]"
  from assms(4,5) have comb: "combine cfg ws r sc = Inr out"
    by (simp add: forward_def split: if_splits)
  have len: "length sc = dim_B (ws ! r) * dim_T (ws ! r) * moe_k cfg"
    by (simp add: length_scaled [OF assms(2,4)] sum_send_count [OF assms(1,2)])
  have "dim_C (ws ! r) = dim_C (hd ws)"
    using assms(1,2) by (simp add: wf_input_def list_all_length)
  then have width: "\<forall>row \<in> set sc. length row = dim_C (ws ! r)"
    using scaled_width [OF assms(1,2,4,6)] by simp
  show ?thesis
  proof (cases "1 < moe_k cfg")
    case True
    then have ne: "?ts \<noteq> []" by simp
    note parts = slot_parts_shape [OF assms(1,2) len width]
    from comb True have "view3 (dim_B (ws ! r)) (dim_T (ws ! r)) (sum_dim0 ?ts) = Inr out"
      by (auto simp: combine_def stack_def split: sum.splits list.splits if_splits)
    then have "concat out = sum_dim0 ?ts" by (rule view3_concat)
    then have "concat out ! n ! j = sum_list (map (\<lambda>t. t ! n ! j) ?ts)"
      using sum_dim0_nth [OF ne parts assms(7,8)] by simp
    also have "\<dots> = (\<Sum>s < moe_k cfg. slot_rows (send_ids cfg ws r) sc s ! n ! j)"
      by (simp add: comp_def interv_sum_list_conv_sum_set_nat atLeast0LessThan)
    finally show ?thesis .
  next
    case False
    with assms(3) have k: "moe_k cfg = 1" by simp
    from comb k have "view3 (dim_B (ws ! r)) (dim_T (ws ! r)) sc = Inr out"
      by (simp add: combine_def)
    then have out: "concat out = sc" by (rule view3_concat)
    have "length (send_ids cfg ws r) = length sc"
      using len by (simp add: length_send_ids sum_send_count [OF assms(1,2)])
    moreover have "\<forall>c \<in> set (send_ids cfg ws r). snd (snd c) = 0"
      using send_ids_slot [of _ cfg ws r] k by auto
    ultimately have "slot_rows (send_ids cfg ws r) sc 0 = sc"
      by (rule slot_rows_all)
    with out k show ?thesis by simp
  qed
qed

lemma ids_per_expert_covers:
  assumes "b < dim_B w" and "t < dim_T w" and "s < moe_k cfg"
  shows "\<exists>i < length (ids_per_expert cfg w (topk_experts w ! b ! t ! s)).
           ids_per_expert cfg w (topk_experts w ! b ! t ! s) ! i = (b, t, s)"
proof -
  from assms have "(b, t, s) \<in> set (ids_per_expert cfg w (topk_experts w ! b ! t ! s))"
    by (simp add: ids_per_expert_def set_coords)
  then show ?thesis by (simp add: in_set_conv_nth)
qed

lemma forward_ok:
  assumes "wf_input cfg ws" and "r < length ws"
    and "1 \<le> moe_k cfg" and "moe_k cfg \<le> length ws"
    and "scaled cfg expert ws r = Inr sc"
    and "\<And>e tok. length (expert e tok) = length tok"
  shows "\<exists>out. forward cfg expert ws r = Inr out"
proof -
  have "length sc = dim_B (ws ! r) * dim_T (ws ! r) * moe_k cfg"
    by (simp add: length_scaled [OF assms(2,5)] sum_send_count [OF assms(1,2)])
  moreover have "dim_C (ws ! r) = dim_C (hd ws)"
    using assms(1,2) by (simp add: wf_input_def list_all_length)
  then have "\<forall>row \<in> set sc. length row = dim_C (ws ! r)"
    using scaled_width [OF assms(1,2,5,6)] by simp
  ultimately obtain out where "combine cfg ws r sc = Inr out"
    using combine_shape [OF assms(1-3)] by blast
  with assms(4,5) show ?thesis by (simp add: forward_def)
qed

section \<open>The claims\<close>

subsection \<open>Claim C1\<close>

text \<open>
  Claim C1, as amended. Let \<open>(b, t, s)\<close> be a slot of the batch of rank \<open>r\<close>, selecting expert
  \<open>e\<close>, in a pass that completes on rank \<open>r\<close>. The slot is the \<open>i\<close>-th coordinate rank \<open>r\<close> sends
  to \<open>e\<close>, for some \<open>i\<close>. It is kept when fewer than \<open>capacity\<close> earlier slots of row \<open>b\<close> were
  routed to \<open>e\<close>. The row of the scaled buffer of line 112 for the slot is the expert's
  result on the feature vector \<open>x[b, t]\<close> times the router weight when the slot is kept, and
  the padding value times the router weight in every component when it is truncated.
\<close>

theorem slot_result:
  assumes "wf_input cfg ws" and "r < length ws"
    and "b < dim_B (ws ! r)" and "t < dim_T (ws ! r)" and "s < moe_k cfg"
    and "e = topk_experts (ws ! r) ! b ! t ! s"
    and "scaled cfg expert ws r = Inr sc"
  shows "e < length ws
       \<and> (\<exists>i < length (ids_per_expert cfg (ws ! r) e).
            ids_per_expert cfg (ws ! r) e ! i = (b, t, s)
          \<and> (kept cfg ws r e i \<longleftrightarrow>
               int (length (filter (\<lambda>c. fst c = b) (take i (ids_per_expert cfg (ws ! r) e))))
                 < capacity cfg ws e)
          \<and> sc ! send_pos cfg ws r e i =
              (if kept cfg ws r e i
               then map (\<lambda>v. v * topk_probs (ws ! r) ! b ! t ! s) (expert e (x_in (ws ! r) ! b ! t))
               else replicate (dim_C (ws ! r)) (padding_val cfg * topk_probs (ws ! r) ! b ! t ! s)))"
proof -
  have e: "e < length ws"
    using wf_input_worker [OF assms(1,2)] assms(3-5)
    by (simp add: assms(6) wf_worker_def list_all_length)
  from ids_per_expert_covers [OF assms(3-5)]
  obtain i where i: "i < length (ids_per_expert cfg (ws ! r) e)"
    and c: "ids_per_expert cfg (ws ! r) e ! i = (b, t, s)"
    unfolding assms(6) by blast
  have len: "length (x_in (ws ! r) ! b ! t) = dim_C (ws ! r)"
    by (rule wf_tok_length [OF wf_input_worker [OF assms(1,2)] assms(3,4)])
  from kept_iff_sender_rank [OF wf_input_uniform [OF assms(1)] assms(2) e i]
  have "kept cfg ws r e i \<longleftrightarrow>
        int (length (filter (\<lambda>c. fst c = b) (take i (ids_per_expert cfg (ws ! r) e))))
          < capacity cfg ws e"
    by (simp add: c)
  moreover from scaled_slot [OF assms(2) e i assms(7)]
  have "sc ! send_pos cfg ws r e i =
           (if kept cfg ws r e i
            then map (\<lambda>v. v * topk_probs (ws ! r) ! b ! t ! s) (expert e (x_in (ws ! r) ! b ! t))
            else replicate (dim_C (ws ! r)) (padding_val cfg * topk_probs (ws ! r) ! b ! t ! s))"
    by (simp add: c tok_at_def prob_at_def len map_replicate)
  ultimately show ?thesis using e i c by blast
qed

theorem slot_result_witness:
  "wf_input ex_cfg [ex_w0, ex_w1] \<and> (0::nat) < length [ex_w0, ex_w1]
   \<and> (0::nat) < dim_B ([ex_w0, ex_w1] ! 0) \<and> (0::nat) < dim_T ([ex_w0, ex_w1] ! 0)
   \<and> (0::nat) < moe_k ex_cfg
   \<and> (0::nat) = topk_experts ([ex_w0, ex_w1] ! 0) ! 0 ! 0 ! 0
   \<and> scaled ex_cfg ex_expert [ex_w0, ex_w1] 0 = Inr [[5], [0]]
   \<and> (\<exists>i < length (ids_per_expert ex_cfg ([ex_w0, ex_w1] ! 0) 0).
        ids_per_expert ex_cfg ([ex_w0, ex_w1] ! 0) 0 ! i = (0, 0, 0)
      \<and> (kept ex_cfg [ex_w0, ex_w1] 0 0 i \<longleftrightarrow>
           int (length (filter (\<lambda>c. fst c = 0)
                          (take i (ids_per_expert ex_cfg ([ex_w0, ex_w1] ! 0) 0))))
             < capacity ex_cfg [ex_w0, ex_w1] 0)
      \<and> [[5], [0]] ! send_pos ex_cfg [ex_w0, ex_w1] 0 0 i =
          (if kept ex_cfg [ex_w0, ex_w1] 0 0 i
           then map (\<lambda>v. v * topk_probs ([ex_w0, ex_w1] ! 0) ! 0 ! 0 ! 0)
                  (ex_expert 0 (x_in ([ex_w0, ex_w1] ! 0) ! 0 ! 0))
           else replicate (dim_C ([ex_w0, ex_w1] ! 0))
                  (padding_val ex_cfg * topk_probs ([ex_w0, ex_w1] ! 0) ! 0 ! 0 ! 0)))
   \<and> kept ex_cfg [ex_w0, ex_w1] 0 0 0
   \<and> map (\<lambda>v. v * topk_probs ([ex_w0, ex_w1] ! 0) ! 0 ! 0 ! 0)
         (ex_expert 0 (x_in ([ex_w0, ex_w1] ! 0) ! 0 ! 0)) = [5]"
proof -
  have h: "wf_input ex_cfg [ex_w0, ex_w1]" "(0::nat) < length [ex_w0, ex_w1]"
    "(0::nat) < dim_B ([ex_w0, ex_w1] ! 0)" "(0::nat) < dim_T ([ex_w0, ex_w1] ! 0)"
    "(0::nat) < moe_k ex_cfg"
    "(0::nat) = topk_experts ([ex_w0, ex_w1] ! 0) ! 0 ! 0 ! 0"
    "scaled ex_cfg ex_expert [ex_w0, ex_w1] 0 = Inr [[5], [0]]"
    by code_simp+
  have k: "kept ex_cfg [ex_w0, ex_w1] 0 0 0"
    "map (\<lambda>v. v * topk_probs ([ex_w0, ex_w1] ! 0) ! 0 ! 0 ! 0)
         (ex_expert 0 (x_in ([ex_w0, ex_w1] ! 0) ! 0 ! 0)) = [5]"
    by code_simp+
  note t = slot_result [OF h]
  from t h k show ?thesis by (intro conjI) blast+
qed

text \<open>
  Claim C1 as stated fails with \<open>k = 1\<close> and the padding value 1: the second element of worker
  0 is truncated at expert 0, and its output is \<open>3 / 4\<close> (the padding value times its weight),
  where the expert's result times the weight is 15.
\<close>

theorem weight_application_counterexample:
  "moe_k ex_cfg_pad = 1
   \<and> forward ex_cfg_pad ex_expert [ex_w0, ex_w1] 0 = Inr [[[5], [3 / 4]]]
   \<and> topk_experts ex_w0 ! 0 ! 1 ! 0 = 0
   \<and> map (\<lambda>v. v * topk_probs ex_w0 ! 0 ! 1 ! 0) (ex_expert 0 (x_in ex_w0 ! 0 ! 1)) = [15]
   \<and> topk_probs ex_w0 ! 0 ! 1 ! 0 = 3 / 4"
  by code_simp

subsection \<open>Claim C2\<close>

text \<open>
  Claim C2, as amended. On well-formed inputs of any batch sizes, with \<open>k\<close> between 1 and
  the number of experts, a capacity factor of at least 1, an expert that keeps the width of
  a feature vector, and at least one element routed to every expert, the pass completes on
  every rank \<open>r\<close> and returns a batch of the shape \<open>(B, T, C)\<close> of the input of rank \<open>r\<close>.
\<close>

theorem forward_shape:
  assumes "wf_input cfg ws" and "r < length ws"
    and "1 \<le> moe_k cfg" and "moe_k cfg \<le> length ws"
    and "1 \<le> capacity_factor cfg"
    and "list_all (\<lambda>e. 0 < sum_list (recv_count cfg ws e)) [0..<length ws]"
    and "\<And>e tok. length (expert e tok) = length tok"
  shows "\<exists>out. forward cfg expert ws r = Inr out
              \<and> has_shape (dim_B (ws ! r)) (dim_T (ws ! r)) (dim_C (ws ! r)) out"
proof -
  from assms(5) have "0 \<le> capacity_factor cfg" by simp
  from scaled_ok [OF assms(2,6) this] obtain sc where sc: "scaled cfg expert ws r = Inr sc" ..
  have "length sc = dim_B (ws ! r) * dim_T (ws ! r) * moe_k cfg"
    by (simp add: length_scaled [OF assms(2) sc] sum_send_count [OF assms(1,2)])
  moreover have "dim_C (ws ! r) = dim_C (hd ws)"
    using assms(1,2) by (simp add: wf_input_def list_all_length)
  then have "\<forall>row \<in> set sc. length row = dim_C (ws ! r)"
    using scaled_width [OF assms(1,2) sc assms(7)] by simp
  ultimately obtain out where "combine cfg ws r sc = Inr out"
    and "has_shape (dim_B (ws ! r)) (dim_T (ws ! r)) (dim_C (ws ! r)) out"
    using combine_shape [OF assms(1-3)] by blast
  with sc assms(4) show ?thesis by (simp add: forward_def)
qed

theorem forward_shape_witness:
  "wf_input ex_cfg [ex_w0, ex_w1] \<and> (0::nat) < length [ex_w0, ex_w1]
   \<and> 1 \<le> moe_k ex_cfg \<and> moe_k ex_cfg \<le> length [ex_w0, ex_w1]
   \<and> 1 \<le> capacity_factor ex_cfg
   \<and> list_all (\<lambda>e. 0 < sum_list (recv_count ex_cfg [ex_w0, ex_w1] e)) [0..<length [ex_w0, ex_w1]]
   \<and> (\<exists>out. forward ex_cfg ex_expert [ex_w0, ex_w1] 0 = Inr out
              \<and> has_shape (dim_B ([ex_w0, ex_w1] ! 0)) (dim_T ([ex_w0, ex_w1] ! 0))
                   (dim_C ([ex_w0, ex_w1] ! 0)) out)"
proof -
  have h: "wf_input ex_cfg [ex_w0, ex_w1]" "(0::nat) < length [ex_w0, ex_w1]"
    "1 \<le> moe_k ex_cfg" "moe_k ex_cfg \<le> length [ex_w0, ex_w1]"
    "1 \<le> capacity_factor ex_cfg"
    "list_all (\<lambda>e. 0 < sum_list (recv_count ex_cfg [ex_w0, ex_w1] e)) [0..<length [ex_w0, ex_w1]]"
    by code_simp+
  have e: "length (ex_expert e tok) = length tok" for e tok
    by (simp add: ex_expert_def)
  note t = forward_shape [where expert = ex_expert, OF h e]
  from t h show ?thesis by (intro conjI)
qed

text \<open>
  Claim C2 as stated fails for \<open>k\<close> above the number of experts: with the default
  configuration on a single worker \<^verbatim>\<open>torch.topk\<close> raises and no batch is returned.
\<close>

theorem shape_counterexample:
  "1 \<le> moe_k ex_cfg_default \<and> 1 \<le> capacity_factor ex_cfg_default
   \<and> forward ex_cfg_default ex_expert [ex_w0] 0 = Inl TopkOutOfRange"
  by code_simp

subsection \<open>Claim C3\<close>

text \<open>
  Claim C3, as amended. For \<open>T \<ge> 1\<close>, at least one expert and a capacity factor of at least 1, the
  capacity of line 94 is the floor of the float64 value of \<^verbatim>\<open>T / num_experts * capacity_factor\<close>:
  the quotient is rounded to a float, multiplied by the capacity factor and rounded again. It
  differs by at most 1 from the floor of the exact product when that product is at most
  \<open>2 ^ 51\<close>. It reads nothing but these three numbers: a second pass, on any rank, with the same
  three numbers computes the same capacity.
\<close>

theorem capacity_floor:
  assumes "1 \<le> dim_T (ws ! r)" and "1 \<le> length ws" and "1 \<le> capacity_factor cfg"
    and "dim_T (ws' ! r') = dim_T (ws ! r)" and "length ws' = length ws"
    and "capacity_factor cfg' = capacity_factor cfg"
  shows "capacity cfg ws r =
           \<lfloor>round_double (round_double (real (dim_T (ws ! r)) / real (length ws)) * capacity_factor cfg)\<rfloor>
       \<and> (real (dim_T (ws ! r)) / real (length ws) * capacity_factor cfg \<le> 2 ^ 51 \<longrightarrow>
            \<bar>capacity cfg ws r - \<lfloor>real (dim_T (ws ! r)) / real (length ws) * capacity_factor cfg\<rfloor>\<bar> \<le> 1)
       \<and> capacity cfg' ws' r' = capacity cfg ws r"
proof -
  from assms(3) have cf: "0 \<le> capacity_factor cfg" by simp
  then have "0 \<le> round_double (real (dim_T (ws ! r)) / real (length ws)) * capacity_factor cfg"
    by (intro mult_nonneg_nonneg round_double_nonneg) simp_all
  then have "0 \<le> round_double (round_double (real (dim_T (ws ! r)) / real (length ws)) * capacity_factor cfg)"
    by (rule round_double_nonneg)
  then have "capacity cfg ws r =
           \<lfloor>round_double (round_double (real (dim_T (ws ! r)) / real (length ws)) * capacity_factor cfg)\<rfloor>"
    by (simp add: capacity_def capacity_of_def py_int_def)
  moreover have "\<bar>capacity cfg ws r - \<lfloor>real (dim_T (ws ! r)) / real (length ws) * capacity_factor cfg\<rfloor>\<bar> \<le> 1"
    if "real (dim_T (ws ! r)) / real (length ws) * capacity_factor cfg \<le> 2 ^ 51"
    unfolding capacity_def by (rule capacity_of_near [OF assms(1,2) cf that])
  moreover have "capacity cfg' ws' r' = capacity cfg ws r"
    using assms(4-6) by (simp add: capacity_def)
  ultimately show ?thesis by blast
qed

theorem capacity_floor_witness:
  "1 \<le> dim_T (replicate 7 ex_w61 ! 0) \<and> 1 \<le> length (replicate 7 ex_w61)
   \<and> 1 \<le> capacity_factor ex_cfg_seven
   \<and> dim_T (replicate 7 ex_w61 ! 3) = dim_T (replicate 7 ex_w61 ! 0)
   \<and> real (dim_T (replicate 7 ex_w61 ! 0)) / real (length (replicate 7 ex_w61)) *
        capacity_factor ex_cfg_seven \<le> 2 ^ 51
   \<and> capacity ex_cfg_seven (replicate 7 ex_w61) 0 =
        \<lfloor>round_double (round_double (real (dim_T (replicate 7 ex_w61 ! 0)) /
            real (length (replicate 7 ex_w61))) * capacity_factor ex_cfg_seven)\<rfloor>
   \<and> capacity ex_cfg_seven (replicate 7 ex_w61) 0 = 60
   \<and> \<bar>capacity ex_cfg_seven (replicate 7 ex_w61) 0 -
        \<lfloor>real (dim_T (replicate 7 ex_w61 ! 0)) / real (length (replicate 7 ex_w61)) *
           capacity_factor ex_cfg_seven\<rfloor>\<bar> \<le> 1
   \<and> capacity ex_cfg_seven (replicate 7 ex_w61) 3 = capacity ex_cfg_seven (replicate 7 ex_w61) 0"
proof -
  have h: "1 \<le> dim_T (replicate 7 ex_w61 ! 0)" "1 \<le> length (replicate 7 ex_w61)"
    "1 \<le> capacity_factor ex_cfg_seven"
    "dim_T (replicate 7 ex_w61 ! 3) = dim_T (replicate 7 ex_w61 ! 0)"
    "length (replicate 7 ex_w61) = length (replicate 7 ex_w61)"
    "capacity_factor ex_cfg_seven = capacity_factor ex_cfg_seven"
    by code_simp+
  have b: "real (dim_T (replicate 7 ex_w61 ! 0)) / real (length (replicate 7 ex_w61)) *
        capacity_factor ex_cfg_seven \<le> 2 ^ 51"
    by code_simp
  have v: "capacity ex_cfg_seven (replicate 7 ex_w61) 0 = 60"
    by code_simp
  note t = capacity_floor [OF h]
  from t h b v show ?thesis by (intro conjI) blast+
qed

text \<open>
  Claim C3 as stated fails for the floor of the exact product. With \<open>T = 61\<close>, seven experts
  and the capacity factor 7 the product is 61, but the float of \<open>61 / 7\<close> lies below the
  quotient, its product with 7 rounds to the float below 61, and the capacity is 60.
\<close>

theorem capacity_counterexample:
  "wf_input ex_cfg_seven (replicate 7 ex_w61)
   \<and> 1 \<le> dim_T (replicate 7 ex_w61 ! 0) \<and> 1 \<le> length (replicate 7 ex_w61)
   \<and> 1 \<le> capacity_factor ex_cfg_seven
   \<and> capacity ex_cfg_seven (replicate 7 ex_w61) 0 = 60
   \<and> \<lfloor>real (dim_T (replicate 7 ex_w61 ! 0)) / real (length (replicate 7 ex_w61)) *
        capacity_factor ex_cfg_seven\<rfloor> = 61
   \<and> round_double (61 / 7) < 61 / 7
   \<and> round_double (round_double (61 / 7) * 7) < 61"
  by code_simp

subsection \<open>Claim C4\<close>

text \<open>
  Claim C4. Let \<open>g\<close> be the received feature vectors with the \<open>i\<close>-th unique row id. When \<open>g\<close>
  has more elements than the capacity, the row of the batch is the first \<open>capacity\<close>
  elements of \<open>g\<close> (the trailing ones are dropped); otherwise it is \<open>g\<close> followed by rows of
  the padding value up to the capacity. The recorded length of the row is the minimum of
  the size of the group and the capacity.
\<close>

theorem group_crop_or_pad:
  assumes "uniform_batches cfg ws" and "r < length ws" and "i < length (uniq_rows cfg ws r)"
    and "batch_toks cfg ws r = Inr bt"
    and "g = map snd (filter (\<lambda>p. fst (fst p) = uniq_rows cfg ws r ! i)
                        (zip (recv_ids cfg ws r) (recv_toks cfg ws r)))"
  shows "bt ! i =
           (if capacity cfg ws r < int (length g) then take (nat (capacity cfg ws r)) g
            else g @ replicate (nat (capacity cfg ws r) - length g)
                       (replicate (dim_C (ws ! r)) (padding_val cfg)))
       \<and> length (bt ! i) = nat (capacity cfg ws r)
       \<and> batch_row_len cfg ws r ! i = min (length g) (nat (capacity cfg ws r))
       \<and> length g = recv_row_lens cfg ws r ! i"
proof -
  note bt = batch_toks_Inr [OF assms(4)]
  have g: "g = recv_row_slice cfg ws r i (recv_toks cfg ws r)"
    unfolding assms(5) by (rule slice_is_group [OF assms(1-3) length_ids_toks [OF assms(2)], symmetric])
  have len: "length g = recv_row_lens cfg ws r ! i"
    unfolding g by (rule length_recv_row_slice [OF assms(3) length_ids_toks [OF assms(2)]])
  have "bt ! i = pad_fn cfg ws r g"
    using assms(3) by (simp add: bt(3) g)
  moreover have "pad_fn cfg ws r g =
           (if capacity cfg ws r < int (length g) then take (nat (capacity cfg ws r)) g
            else g @ replicate (nat (capacity cfg ws r) - length g)
                       (replicate (dim_C (ws ! r)) (padding_val cfg)))"
    using bt(2) by (auto simp: pad_fn_def pad_rows_def nat_diff_distrib intro: arg_cong [of _ _ "\<lambda>n. take n g"])
  moreover have "length (pad_fn cfg ws r g) = nat (capacity cfg ws r)"
    by (rule length_pad_fn [OF bt(2)])
  moreover have "batch_row_len cfg ws r ! i = min (length g) (nat (capacity cfg ws r))"
    using bt(2) assms(3) by (simp add: batch_row_len_nth len)
  ultimately show ?thesis using len by simp
qed

theorem group_crop_or_pad_witness:
  "uniform_batches ex_cfg [ex_w0, ex_w1] \<and> (0::nat) < length [ex_w0, ex_w1]
   \<and> (0::nat) < length (uniq_rows ex_cfg [ex_w0, ex_w1] 0)
   \<and> batch_toks ex_cfg [ex_w0, ex_w1] 0 = Inr [[[1]]]
   \<and> [[1], [2]] = map snd (filter (\<lambda>p. fst (fst p) = uniq_rows ex_cfg [ex_w0, ex_w1] 0 ! 0)
                        (zip (recv_ids ex_cfg [ex_w0, ex_w1] 0) (recv_toks ex_cfg [ex_w0, ex_w1] 0)))
   \<and> capacity ex_cfg [ex_w0, ex_w1] 0 = 1
   \<and> length ([[[1::real]]] ! 0) = nat (capacity ex_cfg [ex_w0, ex_w1] 0)
   \<and> batch_row_len ex_cfg [ex_w0, ex_w1] 0 ! 0 =
       min (length [[1], [2::real]]) (nat (capacity ex_cfg [ex_w0, ex_w1] 0))"
proof -
  have h: "uniform_batches ex_cfg [ex_w0, ex_w1]" "(0::nat) < length [ex_w0, ex_w1]"
    "(0::nat) < length (uniq_rows ex_cfg [ex_w0, ex_w1] 0)"
    "batch_toks ex_cfg [ex_w0, ex_w1] 0 = Inr [[[1]]]"
    "[[1], [2]] = map snd (filter (\<lambda>p. fst (fst p) = uniq_rows ex_cfg [ex_w0, ex_w1] 0 ! 0)
                        (zip (recv_ids ex_cfg [ex_w0, ex_w1] 0) (recv_toks ex_cfg [ex_w0, ex_w1] 0)))"
    by code_simp+
  have v: "capacity ex_cfg [ex_w0, ex_w1] 0 = 1" by code_simp
  note t = group_crop_or_pad [OF h]
  from t h v show ?thesis by blast
qed

subsection \<open>Claim C5\<close>

text \<open>
  Claim C5 fails on the code. When rank \<open>r\<close> receives no element from any rank,
  \<^verbatim>\<open>uniq_rows\<close> is empty, \<^verbatim>\<open>torch.stack\<close> of line 96 raises on the empty list, and the
  pass completes on no rank.
\<close>

theorem empty_expert_raises:
  assumes "moe_k cfg \<le> length ws" and "r < length ws" and "j < length ws"
    and "sum_list (recv_count cfg ws r) = 0"
  shows "uniq_rows cfg ws r = [] \<and> forward cfg expert ws r = Inl StackEmpty
       \<and> isl (forward cfg expert ws j)"
proof -
  from assms(2,4) have "recv_ids cfg ws r = []"
    by (simp add: length_recv_ids [symmetric])
  then have empty: "uniq_rows cfg ws r = []"
    by (simp add: uniq_rows_eq)
  then have res: "result_toks cfg expert ws r = Inl StackEmpty"
    by (simp add: result_toks_def expert_out_def batch_toks_def)
  then have own: "forward cfg expert ws r = Inl StackEmpty"
    using assms(1) by (simp add: forward_def scaled_def returned_toks_def)
  from res assms(2) have "list_ex (\<lambda>j. isl (result_toks cfg expert ws j)) [0..<length ws]"
    unfolding list_ex_iff by (intro bexI [of _ r]) simp_all
  then have "isl (returned_toks cfg expert ws j)"
    by (simp add: returned_toks_def split: sum.splits)
  then have "isl (forward cfg expert ws j)"
    by (auto simp: forward_def scaled_def split: sum.splits)
  with empty own show ?thesis by simp
qed

theorem empty_expert_raises_witness:
  "moe_k ex_cfg \<le> length [ex_w0, ex_w1_to0] \<and> (1::nat) < length [ex_w0, ex_w1_to0]
   \<and> (0::nat) < length [ex_w0, ex_w1_to0]
   \<and> sum_list (recv_count ex_cfg [ex_w0, ex_w1_to0] 1) = 0
   \<and> forward ex_cfg ex_expert [ex_w0, ex_w1_to0] 1 = Inl StackEmpty
   \<and> forward ex_cfg ex_expert [ex_w0, ex_w1_to0] 0 = Inl PeerFailed"
proof -
  have h: "moe_k ex_cfg \<le> length [ex_w0, ex_w1_to0]" "(1::nat) < length [ex_w0, ex_w1_to0]"
    "(0::nat) < length [ex_w0, ex_w1_to0]"
    "sum_list (recv_count ex_cfg [ex_w0, ex_w1_to0] 1) = 0"
    by code_simp+
  have v: "forward ex_cfg ex_expert [ex_w0, ex_w1_to0] 0 = Inl PeerFailed" by code_simp
  from empty_expert_raises [OF h, of ex_expert] h v show ?thesis by simp
qed

subsection \<open>Claim C6\<close>

text \<open>
  Claim C6. After the exchange of the counts, the count rank \<open>i\<close> expects from rank \<open>j\<close> is
  the count rank \<open>j\<close> sends to rank \<open>i\<close>. Hence the pairs all ranks send to expert \<open>i\<close>
  are as many as rank \<open>i\<close> expects, and as many as the metadata records and the feature
  vectors it receives.
\<close>

theorem counts_exchange:
  assumes "i < length ws" and "j < length ws"
  shows "recv_count cfg ws i ! j = send_count cfg ws j ! i
       \<and> (\<Sum>w < length ws. send_count cfg ws w ! i) = sum_list (recv_count cfg ws i)
       \<and> length (recv_ids cfg ws i) = sum_list (recv_count cfg ws i)
       \<and> length (recv_toks cfg ws i) = sum_list (recv_count cfg ws i)"
  using assms
  by (simp add: recv_count_nth sum_recv_count length_recv_ids length_recv_toks)

theorem counts_exchange_witness:
  "(0::nat) < length [ex_w0, ex_w1] \<and> 1 < length [ex_w0, ex_w1]
   \<and> recv_count ex_cfg [ex_w0, ex_w1] 0 ! 1 = send_count ex_cfg [ex_w0, ex_w1] 1 ! 0
   \<and> (\<Sum>w < length [ex_w0, ex_w1]. send_count ex_cfg [ex_w0, ex_w1] w ! 0) = 2
   \<and> length (recv_ids ex_cfg [ex_w0, ex_w1] 0) = 2"
proof -
  have h: "(0::nat) < length [ex_w0, ex_w1]" "1 < length [ex_w0, ex_w1]" by simp_all
  have v: "sum_list (recv_count ex_cfg [ex_w0, ex_w1] 0) = 2" by code_simp
  from counts_exchange [OF h, of ex_cfg] h v show ?thesis by simp
qed

subsection \<open>Claim C7\<close>

text \<open>
  Claim C7. Whether a slot is truncated is decided by the expert assignments of the rows
  of its own batch and by the capacity, and by nothing else: two passes that agree on the
  shape and the assignments of the batch of rank \<open>r\<close> and on the capacity of expert \<open>e\<close>
  truncate the same slots of rank \<open>r\<close> at expert \<open>e\<close>, whatever the feature vectors, the
  router weights and the batches of the other ranks are.
\<close>

theorem truncation_deterministic:
  assumes "uniform_batches cfg ws" and "uniform_batches cfg' ws'"
    and "r < length ws" and "e < length ws" and "r < length ws'" and "e < length ws'"
    and "moe_k cfg' = moe_k cfg" and "dim_B (ws' ! r) = dim_B (ws ! r)"
    and "dim_T (ws' ! r) = dim_T (ws ! r)" and "topk_experts (ws' ! r) = topk_experts (ws ! r)"
    and "capacity cfg' ws' e = capacity cfg ws e"
    and "i < length (ids_per_expert cfg (ws ! r) e)"
  shows "(kept cfg' ws' r e i \<longleftrightarrow> kept cfg ws r e i)
       \<and> (kept cfg ws r e i \<longleftrightarrow>
            int (length (filter (\<lambda>c. fst c = fst (ids_per_expert cfg (ws ! r) e ! i))
                           (take i (ids_per_expert cfg (ws ! r) e)))) < capacity cfg ws e)"
proof -
  have ids: "ids_per_expert cfg' (ws' ! r) e = ids_per_expert cfg (ws ! r) e"
    using assms(7-10) by (simp add: ids_per_expert_def)
  have i': "i < length (ids_per_expert cfg' (ws' ! r) e)"
    using assms(12) by (simp add: ids)
  from kept_iff_sender_rank [OF assms(1,3,4,12)]
    kept_iff_sender_rank [OF assms(2,5,6) i']
  show ?thesis by (simp add: ids assms(11))
qed

theorem truncation_deterministic_witness:
  "uniform_batches ex_cfg [ex_w0, ex_w1] \<and> uniform_batches ex_cfg [ex_w0, ex_w1_to0]
   \<and> topk_experts ([ex_w0, ex_w1_to0] ! 0) = topk_experts ([ex_w0, ex_w1] ! 0)
   \<and> capacity ex_cfg [ex_w0, ex_w1_to0] 0 = capacity ex_cfg [ex_w0, ex_w1] 0
   \<and> (1::nat) < length (ids_per_expert ex_cfg ([ex_w0, ex_w1] ! 0) 0)
   \<and> (kept ex_cfg [ex_w0, ex_w1_to0] 0 0 1 \<longleftrightarrow> kept ex_cfg [ex_w0, ex_w1] 0 0 1)"
proof -
  have h: "uniform_batches ex_cfg [ex_w0, ex_w1]" "uniform_batches ex_cfg [ex_w0, ex_w1_to0]"
    "(0::nat) < length [ex_w0, ex_w1]" "(0::nat) < length [ex_w0, ex_w1]"
    "(0::nat) < length [ex_w0, ex_w1_to0]" "(0::nat) < length [ex_w0, ex_w1_to0]"
    "moe_k ex_cfg = moe_k ex_cfg" "dim_B ([ex_w0, ex_w1_to0] ! 0) = dim_B ([ex_w0, ex_w1] ! 0)"
    "dim_T ([ex_w0, ex_w1_to0] ! 0) = dim_T ([ex_w0, ex_w1] ! 0)"
    "topk_experts ([ex_w0, ex_w1_to0] ! 0) = topk_experts ([ex_w0, ex_w1] ! 0)"
    "capacity ex_cfg [ex_w0, ex_w1_to0] 0 = capacity ex_cfg [ex_w0, ex_w1] 0"
    "(1::nat) < length (ids_per_expert ex_cfg ([ex_w0, ex_w1] ! 0) 0)"
    by code_simp+
  from truncation_deterministic [OF h] h show ?thesis by blast
qed

subsection \<open>Claim C9\<close>

text \<open>
  Claim C9. With batches of equal size whenever \<^verbatim>\<open>drop_last\<close> is set: the ids a sender
  emits to rank \<open>r\<close> ascend in their row and lie in the range of global rows of the
  sender; that range ends where the range of a sender of higher rank begins, or below; so
  the row ids rank \<open>r\<close> receives are sorted, and the slice of line 91 for the \<open>i\<close>-th unique
  row id holds exactly the received feature vectors with that row id, in the order of
  arrival.
\<close>

theorem received_rows_sorted:
  assumes "uniform_batches cfg ws" and "r < length ws" and "i < length (uniq_rows cfg ws r)"
    and "j < j'" and "j' < length ws"
  shows "sorted (map fst (map (global_id cfg ws j) (ids_per_expert cfg (ws ! j) r)))
       \<and> list_all (\<lambda>c. batch_inits cfg ws j ! j \<le> fst c
                        \<and> fst c < batch_inits cfg ws j ! j + dim_B (ws ! j))
             (map (global_id cfg ws j) (ids_per_expert cfg (ws ! j) r))
       \<and> batch_inits cfg ws j ! j + dim_B (ws ! j) \<le> batch_inits cfg ws j' ! j'
       \<and> sorted (map fst (recv_ids cfg ws r))
       \<and> recv_row_slice cfg ws r i (recv_toks cfg ws r) =
           map snd (filter (\<lambda>p. fst (fst p) = uniq_rows cfg ws r ! i)
                      (zip (recv_ids cfg ws r) (recv_toks cfg ws r)))"
proof -
  have "list_all (\<lambda>c. batch_inits cfg ws j ! j \<le> fst c
                        \<and> fst c < batch_inits cfg ws j ! j + dim_B (ws ! j))
             (map (global_id cfg ws j) (ids_per_expert cfg (ws ! j) r))"
    using set_ids_per_expert [of _ cfg "ws ! j" r]
    by (auto simp: list_all_iff fst_global_id)
  with sorted_fst_chunk [of cfg ws j r] batch_ranges_increase [OF assms(1,4,5)]
    sorted_recv_ids [OF assms(1,2)]
    slice_is_group [OF assms(1-3) length_ids_toks [OF assms(2)]]
  show ?thesis by simp
qed

theorem received_rows_sorted_witness:
  "uniform_batches ex_cfg [ex_w0, ex_w1] \<and> (0::nat) < length [ex_w0, ex_w1]
   \<and> (0::nat) < length (uniq_rows ex_cfg [ex_w0, ex_w1] 0) \<and> (0::nat) < 1 \<and> 1 < length [ex_w0, ex_w1]
   \<and> sorted (map fst (recv_ids ex_cfg [ex_w0, ex_w1] 0))
   \<and> recv_ids ex_cfg [ex_w0, ex_w1] 0 = [(0, 0, 0), (0, 1, 0)]
   \<and> recv_row_slice ex_cfg [ex_w0, ex_w1] 0 0 (recv_toks ex_cfg [ex_w0, ex_w1] 0) = [[1], [2]]"
proof -
  have h: "uniform_batches ex_cfg [ex_w0, ex_w1]" "(0::nat) < length [ex_w0, ex_w1]"
    "(0::nat) < length (uniq_rows ex_cfg [ex_w0, ex_w1] 0)" "(0::nat) < 1" "1 < length [ex_w0, ex_w1]"
    by code_simp+
  have v: "recv_ids ex_cfg [ex_w0, ex_w1] 0 = [(0, 0, 0), (0, 1, 0)]"
    "recv_row_slice ex_cfg [ex_w0, ex_w1] 0 0 (recv_toks ex_cfg [ex_w0, ex_w1] 0) = [[1], [2]]"
    by code_simp+
  from received_rows_sorted [OF h] h v show ?thesis by simp
qed

subsection \<open>Claim C10\<close>

text \<open>
  Claim C10, as amended. Let the \<open>i\<close>-th slot \<open>(b, t, s)\<close> that rank \<open>r\<close> sends to expert \<open>e\<close> be
  truncated, in a pass on well-formed inputs with \<open>k\<close> at most the number of experts, a
  capacity factor that is not negative, an expert that keeps the width of a feature vector,
  and at least one element routed to every expert. Then the pass completes on rank \<open>r\<close>; the
  row of the scaled buffer for the slot is the padding value times the slot's router weight
  in every component; and the row \<open>out_row\<close> of the returned batch is, in every component,
  this product plus the entries of the other \<open>k - 1\<close> slot selections at that row. The row of
  the slot is zero exactly when the padding value is zero or the router weight is zero.
\<close>

theorem truncated_slot:
  assumes "wf_input cfg ws" and "r < length ws" and "e < length ws"
    and "i < length (ids_per_expert cfg (ws ! r) e)"
    and "ids_per_expert cfg (ws ! r) e ! i = (b, t, s)"
    and "moe_k cfg \<le> length ws" and "0 \<le> capacity_factor cfg"
    and "list_all (\<lambda>e. 0 < sum_list (recv_count cfg ws e)) [0..<length ws]"
    and "\<And>e tok. length (expert e tok) = length tok"
    and "\<not> kept cfg ws r e i"
  shows "\<exists>sc out. scaled cfg expert ws r = Inr sc \<and> forward cfg expert ws r = Inr out
       \<and> sc ! send_pos cfg ws r e i =
           replicate (dim_C (ws ! r)) (padding_val cfg * topk_probs (ws ! r) ! b ! t ! s)
       \<and> out_row cfg ws r e i < dim_B (ws ! r) * dim_T (ws ! r)
       \<and> (\<forall>j < dim_C (ws ! r).
             concat out ! out_row cfg ws r e i ! j =
               padding_val cfg * topk_probs (ws ! r) ! b ! t ! s +
               (\<Sum>s' \<in> {..<moe_k cfg} - {s}.
                  slot_rows (send_ids cfg ws r) sc s' ! out_row cfg ws r e i ! j))
       \<and> (sc ! send_pos cfg ws r e i = replicate (dim_C (ws ! r)) 0 \<longleftrightarrow>
             padding_val cfg = 0 \<or> topk_probs (ws ! r) ! b ! t ! s = 0)"
proof -
  let ?p = "send_pos cfg ws r e i"
  let ?ids = "send_ids cfg ws r"
  let ?n = "length (filter (\<lambda>c. snd (snd c) = s) (take ?p ?ids))"
  let ?v = "padding_val cfg * topk_probs (ws ! r) ! b ! t ! s"
  note c = ids_per_expert_nth [OF assms(4,5)]
  have k: "1 \<le> moe_k cfg" using c(3) by simp
  from scaled_ok [OF assms(2,8,7)] obtain sc where sc: "scaled cfg expert ws r = Inr sc" ..
  from forward_ok [OF assms(1,2) k assms(6) sc assms(9)]
  obtain out where out: "forward cfg expert ws r = Inr out" ..
  have len: "length (x_in (ws ! r) ! b ! t) = dim_C (ws ! r)"
    by (rule wf_tok_length [OF wf_input_worker [OF assms(1,2)] c(1,2)])
  from scaled_slot [OF assms(2-4) sc] assms(10)
  have val: "sc ! ?p = replicate (dim_C (ws ! r)) ?v"
    by (simp add: assms(5) tok_at_def prob_at_def len map_replicate)
  have lens: "length ?ids = length sc"
    by (simp add: length_send_ids length_scaled [OF assms(2) sc])
  have p: "?p < length ?ids"
    using send_pos_bound [OF assms(3,4)] by (simp add: length_send_ids)
  have slot: "snd (snd (?ids ! ?p)) = s"
    by (simp add: send_ids_nth [OF assms(3,4)] assms(5) snd_global_id)
  then have row: "out_row cfg ws r e i = ?n"
    by (simp add: out_row_def Let_def)
  note pos = slot_rows_position [OF lens p slot]
  have "length (slot_rows ?ids sc s) = dim_B (ws ! r) * dim_T (ws ! r)"
    unfolding length_slot_rows [OF lens]
    by (rule length_filter_slot_send_ids [OF assms(1,2) c(3)])
  with pos(1) have n: "?n < dim_B (ws ! r) * dim_T (ws ! r)" by simp
  have sum: "concat out ! ?n ! j =
          ?v + (\<Sum>s' \<in> {..<moe_k cfg} - {s}. slot_rows ?ids sc s' ! ?n ! j)"
    if j: "j < dim_C (ws ! r)" for j
  proof -
    have "concat out ! ?n ! j = (\<Sum>s' < moe_k cfg. slot_rows ?ids sc s' ! ?n ! j)"
      by (rule forward_rows [OF assms(1,2) k sc out assms(9) n j])
    also have "\<dots> = slot_rows ?ids sc s ! ?n ! j +
                    (\<Sum>s' \<in> {..<moe_k cfg} - {s}. slot_rows ?ids sc s' ! ?n ! j)"
      using c(3) by (intro sum.remove) simp_all
    also have "slot_rows ?ids sc s ! ?n ! j = ?v"
      using j by (simp add: pos(2) val)
    finally show ?thesis .
  qed
  have "0 < dim_C (ws ! r)"
    using wf_input_worker [OF assms(1,2)] by (simp add: wf_worker_def)
  then have "replicate (dim_C (ws ! r)) ?v = replicate (dim_C (ws ! r)) 0 \<longleftrightarrow> ?v = 0"
    by (simp only: replicate_eq_replicate) simp
  then have zero: "sc ! ?p = replicate (dim_C (ws ! r)) 0 \<longleftrightarrow>
      padding_val cfg = 0 \<or> topk_probs (ws ! r) ! b ! t ! s = 0"
    unfolding val by simp
  from sc out val n sum zero show ?thesis
    unfolding row by blast
qed

theorem truncated_slot_witness:
  "wf_input ex_cfg_two [ex_u0, ex_u1] \<and> (0::nat) < length [ex_u0, ex_u1]
   \<and> (1::nat) < length [ex_u0, ex_u1]
   \<and> (1::nat) < length (ids_per_expert ex_cfg_two ([ex_u0, ex_u1] ! 0) 1)
   \<and> ids_per_expert ex_cfg_two ([ex_u0, ex_u1] ! 0) 1 ! 1 = (0, 1, 0)
   \<and> moe_k ex_cfg_two \<le> length [ex_u0, ex_u1] \<and> 0 \<le> capacity_factor ex_cfg_two
   \<and> list_all (\<lambda>e. 0 < sum_list (recv_count ex_cfg_two [ex_u0, ex_u1] e))
        [0..<length [ex_u0, ex_u1]]
   \<and> \<not> kept ex_cfg_two [ex_u0, ex_u1] 0 1 1
   \<and> (\<exists>sc out. scaled ex_cfg_two ex_expert [ex_u0, ex_u1] 0 = Inr sc
        \<and> forward ex_cfg_two ex_expert [ex_u0, ex_u1] 0 = Inr out
        \<and> sc ! send_pos ex_cfg_two [ex_u0, ex_u1] 0 1 1 =
            replicate (dim_C ([ex_u0, ex_u1] ! 0))
              (padding_val ex_cfg_two * topk_probs ([ex_u0, ex_u1] ! 0) ! 0 ! 1 ! 0)
        \<and> out_row ex_cfg_two [ex_u0, ex_u1] 0 1 1
            < dim_B ([ex_u0, ex_u1] ! 0) * dim_T ([ex_u0, ex_u1] ! 0)
        \<and> (\<forall>j < dim_C ([ex_u0, ex_u1] ! 0).
              concat out ! out_row ex_cfg_two [ex_u0, ex_u1] 0 1 1 ! j =
                padding_val ex_cfg_two * topk_probs ([ex_u0, ex_u1] ! 0) ! 0 ! 1 ! 0 +
                (\<Sum>s' \<in> {..<moe_k ex_cfg_two} - {0}.
                   slot_rows (send_ids ex_cfg_two [ex_u0, ex_u1] 0) sc s' !
                     out_row ex_cfg_two [ex_u0, ex_u1] 0 1 1 ! j))
        \<and> (sc ! send_pos ex_cfg_two [ex_u0, ex_u1] 0 1 1 =
              replicate (dim_C ([ex_u0, ex_u1] ! 0)) 0 \<longleftrightarrow>
            padding_val ex_cfg_two = 0 \<or> topk_probs ([ex_u0, ex_u1] ! 0) ! 0 ! 1 ! 0 = 0))
   \<and> scaled ex_cfg_two ex_expert [ex_u0, ex_u1] 0 = Inr [[15 / 2], [0], [11 / 4], [1]]
   \<and> forward ex_cfg_two ex_expert [ex_u0, ex_u1] 0 = Inr [[[15 / 2], [15 / 4]]]
   \<and> send_pos ex_cfg_two [ex_u0, ex_u1] 0 1 1 = 3
   \<and> out_row ex_cfg_two [ex_u0, ex_u1] 0 1 1 = 1
   \<and> padding_val ex_cfg_two * topk_probs ([ex_u0, ex_u1] ! 0) ! 0 ! 1 ! 0 = 1
   \<and> slot_rows (send_ids ex_cfg_two [ex_u0, ex_u1] 0) [[15 / 2], [0], [11 / 4], [1::real]] 1 ! 1
       = [11 / 4]"
proof -
  have h: "wf_input ex_cfg_two [ex_u0, ex_u1]" "(0::nat) < length [ex_u0, ex_u1]"
    "(1::nat) < length [ex_u0, ex_u1]"
    "(1::nat) < length (ids_per_expert ex_cfg_two ([ex_u0, ex_u1] ! 0) 1)"
    "ids_per_expert ex_cfg_two ([ex_u0, ex_u1] ! 0) 1 ! 1 = (0, 1, 0)"
    "moe_k ex_cfg_two \<le> length [ex_u0, ex_u1]" "0 \<le> capacity_factor ex_cfg_two"
    "list_all (\<lambda>e. 0 < sum_list (recv_count ex_cfg_two [ex_u0, ex_u1] e))
        [0..<length [ex_u0, ex_u1]]"
    by code_simp+
  have e: "length (ex_expert e tok) = length tok" for e tok
    by (simp add: ex_expert_def)
  have h': "\<not> kept ex_cfg_two [ex_u0, ex_u1] 0 1 1"
    by code_simp
  have v: "scaled ex_cfg_two ex_expert [ex_u0, ex_u1] 0 = Inr [[15 / 2], [0], [11 / 4], [1]]"
    "forward ex_cfg_two ex_expert [ex_u0, ex_u1] 0 = Inr [[[15 / 2], [15 / 4]]]"
    "send_pos ex_cfg_two [ex_u0, ex_u1] 0 1 1 = 3"
    "out_row ex_cfg_two [ex_u0, ex_u1] 0 1 1 = 1"
    "padding_val ex_cfg_two * topk_probs ([ex_u0, ex_u1] ! 0) ! 0 ! 1 ! 0 = 1"
    "slot_rows (send_ids ex_cfg_two [ex_u0, ex_u1] 0) [[15 / 2], [0], [11 / 4], [1::real]] 1 ! 1
       = [11 / 4]"
    by code_simp+
  note t = truncated_slot [where expert = ex_expert, OF h e h']
  from t h h' v show ?thesis by (intro conjI) blast+
qed

text \<open>
  Claim C10 as stated fails for a router weight of zero. With the padding value 1, slot 1 of
  the second element of worker 0 has the weight 0 and is truncated at expert 0: its row of the
  scaled buffer (send position 1) is zero, and it adds nothing to the returned row 0, which
  is the row \<open>15 / 2\<close> of slot 0 of the first element alone.
\<close>

theorem zero_weight_counterexample:
  "wf_input ex_cfg_two [ex_u0, ex_u1]
   \<and> padding_val ex_cfg_two = 1
   \<and> ids_per_expert ex_cfg_two ex_u0 0 ! 1 = (0, 1, 1)
   \<and> topk_probs ex_u0 ! 0 ! 1 ! 1 = 0
   \<and> \<not> kept ex_cfg_two [ex_u0, ex_u1] 0 0 1
   \<and> send_pos ex_cfg_two [ex_u0, ex_u1] 0 0 1 = 1
   \<and> out_row ex_cfg_two [ex_u0, ex_u1] 0 0 1 = 0
   \<and> scaled ex_cfg_two ex_expert [ex_u0, ex_u1] 0 = Inr [[15 / 2], [0], [11 / 4], [1]]
   \<and> forward ex_cfg_two ex_expert [ex_u0, ex_u1] 0 = Inr [[[15 / 2], [15 / 4]]]"
  by code_simp

subsection \<open>The order of the returned rows\<close>

text \<open>
  Lines 113 to 115 read the scaled buffer in the order of the send buffer, which is grouped
  by expert. In the pass below nothing is truncated; the row returned at position 0 is the
  result for the second element of worker 0 (expert 0 on \<open>[2]\<close>, weight \<open>1 / 4\<close>), and the row
  at position 1 is the result for its first element (expert 1 on \<open>[1]\<close>, weight \<open>1 / 2\<close>).
\<close>

lemma send_order_example:
  "send_ids ex_cfg_wide [ex_v0, ex_w1] 0 = [(0, 1, 0), (0, 0, 0)]
   \<and> forward ex_cfg_wide ex_expert [ex_v0, ex_w1] 0 = Inr [[[5], [11 / 2]]]
   \<and> map (\<lambda>v. v * (1 / 4)) (ex_expert 0 [2]) = [5]
   \<and> map (\<lambda>v. v * (1 / 2)) (ex_expert 1 [1]) = [11 / 2]"
  by code_simp

end
